theory Spec2Isabelle
  imports Main
begin

section \<open>The storage model\<close>

text \<open>
  The repository is a C++ class template \<open>SimpleVector<Type>\<close> (two variants of
  \<open>simple_vector.h\<close>) over the owning buffer wrapper \<open>ArrayPtr<Type>\<close>.

  The embedding keeps the buffers in an explicit free store, because the specification speaks
  about ownership transfer and about deep copies:
  \<^item> the free store is a list of blocks; a block address is its index; a freed block is
    \<open>None\<close>; \<open>new Type[n]\<close> appends a block, \<open>delete[]\<close> overwrites it with \<open>None\<close>;
  \<^item> a \<open>Type*\<close> that points to the start of a block is \<open>Some a\<close>, \<open>nullptr\<close> is \<open>None\<close>;
    a pointer into a block (an \<open>Iterator\<close>) is such a base together with an offset;
  \<^item> \<open>size_t\<close> is \<open>nat\<close> with the wrap-around modulo \<open>2 ^ 64\<close> written out at every
    arithmetic operation of the source;
  \<^item> every throw, failed assertion and undefined behaviour of the source is a value of
    the type \<open>error\<close>, returned as \<open>Inl\<close>.

  Conventions of the model:
  \<^item> an argument that the source takes by reference (\<open>const Type&\<close>, \<open>Type&&\<close>) is
    passed as a value: the object it refers to lives outside the buffers of the free
    store. A call whose argument refers to an element of the vector it is called on
    (\<open>v.PushBack(v[0])\<close>) is not described by the model;
  \<^item> \<open>new Type[n]\<close> succeeds exactly when \<open>n\<close> does not exceed \<open>PTRDIFF_MAX\<close>, and
    throws \<open>std::bad_alloc\<close> otherwise; the store itself is unbounded;
  \<^item> \<open>assert\<close> is compiled in: a failed assertion stops the program;
  \<^item> the comparison operators only read two vectors through \<open>begin()\<close> and \<open>end()\<close>
    and are left out; a \<open>ReserveProxy\<close> is the capacity it carries
    (\<open>SimpleVector_reserve\<close>).
\<close>

datatype error =
    OutOfRange        \<comment> \<open>\<open>throw std::out_of_range("Index out of range")\<close>\<close>
  | BadAlloc          \<comment> \<open>\<open>new Type[n]\<close> throws\<close>
  | AssertionFailed   \<comment> \<open>\<open>assert(size_ > 0)\<close> fails\<close>
  | Undefined         \<comment> \<open>undefined behaviour: access outside a live block, invalid range\<close>

definition and_then :: "error + 'a \<Rightarrow> ('a \<Rightarrow> error + 'b) \<Rightarrow> error + 'b" where
  "and_then m f = (case m of Inl e \<Rightarrow> Inl e | Inr x \<Rightarrow> f x)"

text \<open>
  The template parameter \<open>Type\<close>: the value of \<open>Type()\<close>, the value of an element of
  \<open>new Type[n]\<close> (default-initialised), and the state a value is left in after it was the
  source of a move assignment (the identity for trivially copyable types).
\<close>

record 'a Type =
  value_init :: 'a
  default_init :: 'a
  moved_from :: "'a \<Rightarrow> 'a"

type_synonym 'a heap = "'a list option list"

type_synonym pointer = "nat option"

type_synonym iterator = "nat option \<times> nat"

definition PTRDIFF_MAX :: nat where
  "PTRDIFF_MAX = 2 ^ 63 - 1"

definition size_t :: "nat \<Rightarrow> nat" where
  "size_t n = n mod 2 ^ 64"

text \<open>\<open>p[i]\<close> read and written through a raw pointer \<open>p\<close>.\<close>

definition load :: "'a heap \<Rightarrow> pointer \<Rightarrow> nat \<Rightarrow> error + 'a" where
  "load h p i =
     (case p of
        None \<Rightarrow> Inl Undefined
      | Some a \<Rightarrow>
          if a < length h then
            (case h ! a of
               None \<Rightarrow> Inl Undefined
             | Some xs \<Rightarrow> if i < length xs then Inr (xs ! i) else Inl Undefined)
          else Inl Undefined)"

definition store :: "'a heap \<Rightarrow> pointer \<Rightarrow> nat \<Rightarrow> 'a \<Rightarrow> error + 'a heap" where
  "store h p i x =
     (case p of
        None \<Rightarrow> Inl Undefined
      | Some a \<Rightarrow>
          if a < length h then
            (case h ! a of
               None \<Rightarrow> Inl Undefined
             | Some xs \<Rightarrow>
                 if i < length xs then Inr (h[a := Some (xs[i := x])]) else Inl Undefined)
          else Inl Undefined)"

text \<open>
  \<open>new Type[n]\<close> for \<open>n > 0\<close>. No array object is larger than \<open>PTRDIFF_MAX\<close> bytes and an
  element takes at least one byte, so a request for more than \<open>PTRDIFF_MAX\<close> elements
  throws; a smaller request is taken to succeed (running out of memory below that bound is
  not modelled).
\<close>

definition new_array :: "'a Type \<Rightarrow> 'a heap \<Rightarrow> nat \<Rightarrow> error + ('a heap \<times> nat)" where
  "new_array T h n =
     (if PTRDIFF_MAX < n then Inl BadAlloc
      else Inr (h @ [Some (replicate n (default_init T))], length h))"

text \<open>\<open>delete[] p\<close>: nothing for \<open>nullptr\<close>; freeing a block that is not live is undefined.\<close>

definition delete_array :: "'a heap \<Rightarrow> pointer \<Rightarrow> error + 'a heap" where
  "delete_array h p =
     (case p of
        None \<Rightarrow> Inr h
      | Some a \<Rightarrow>
          if a < length h then
            (case h ! a of None \<Rightarrow> Inl Undefined | Some xs \<Rightarrow> Inr (h[a := None]))
          else Inl Undefined)"

subsection \<open>\<open>ArrayPtr\<close> (src/unnamed/part_000)\<close>

text \<open>An \<open>ArrayPtr\<close> is its only field \<open>raw_ptr_\<close>, the address of the owned block.\<close>

definition ArrayPtr_size :: "'a Type \<Rightarrow> 'a heap \<Rightarrow> nat \<Rightarrow> error + ('a heap \<times> pointer)" where
  \<comment> \<open>\<open>explicit ArrayPtr(size_t size)\<close>\<close>
  "ArrayPtr_size T h n =
     (if n \<noteq> 0 then and_then (new_array T h n) (\<lambda>(h', a). Inr (h', Some a))
      else Inr (h, None))"

definition ArrayPtr_destroy :: "'a heap \<Rightarrow> pointer \<Rightarrow> error + 'a heap" where
  \<comment> \<open>\<open>~ArrayPtr()\<close>\<close>
  "ArrayPtr_destroy h raw_ptr = delete_array h raw_ptr"

definition Release :: "pointer \<Rightarrow> pointer \<times> pointer" where
  \<comment> \<open>the released pointer and the new \<open>raw_ptr_\<close>\<close>
  "Release raw_ptr = (raw_ptr, None)"

definition Get :: "pointer \<Rightarrow> iterator" where
  "Get raw_ptr = (raw_ptr, 0)"

definition ArrayPtr_swap :: "pointer \<Rightarrow> pointer \<Rightarrow> pointer \<times> pointer" where
  "ArrayPtr_swap raw_ptr other = (other, raw_ptr)"

subsection \<open>Pointer arithmetic and the algorithms of the standard library\<close>

definition ptr_add :: "iterator \<Rightarrow> nat \<Rightarrow> iterator" where
  "ptr_add p k = (fst p, snd p + k)"

text \<open>
  \<open>p - q\<close>, stored in a \<open>size_t\<close>. The source only subtracts \<open>begin()\<close>, whose offset is 0;
  pointers into different blocks have no difference.
\<close>

definition ptr_diff :: "iterator \<Rightarrow> iterator \<Rightarrow> error + nat" where
  "ptr_diff p q =
     (if fst p = fst q \<and> snd q \<le> snd p then Inr (snd p - snd q) else Inl Undefined)"

text \<open>
  A range \<open>[first, last)\<close> is valid when both pointers have the same base and
  \<open>first\<close> is not behind \<open>last\<close>; anything else is undefined behaviour. The loops run
  \<open>last - first\<close> times.
\<close>

definition valid_range :: "iterator \<Rightarrow> iterator \<Rightarrow> bool" where
  "valid_range first lst \<longleftrightarrow> fst first = fst lst \<and> snd first \<le> snd lst"

fun fill_n :: "'a heap \<Rightarrow> pointer \<Rightarrow> nat \<Rightarrow> nat \<Rightarrow> 'a \<Rightarrow> error + 'a heap" where
  "fill_n h p first 0 x = Inr h"
| "fill_n h p first (Suc n) x =
     and_then (store h p first x) (\<lambda>h'. fill_n h' p (Suc first) n x)"

definition std_fill :: "'a heap \<Rightarrow> iterator \<Rightarrow> iterator \<Rightarrow> 'a \<Rightarrow> error + 'a heap" where
  "std_fill h first lst x =
     (if valid_range first lst
      then fill_n h (fst first) (snd first) (snd lst - snd first) x
      else Inl Undefined)"

fun copy_list :: "'a heap \<Rightarrow> 'a list \<Rightarrow> pointer \<Rightarrow> nat \<Rightarrow> error + 'a heap" where
  "copy_list h [] d d_first = Inr h"
| "copy_list h (x # xs) d d_first =
     and_then (store h d d_first x) (\<lambda>h'. copy_list h' xs d (Suc d_first))"

definition std_copy_init :: "'a heap \<Rightarrow> 'a list \<Rightarrow> iterator \<Rightarrow> error + 'a heap" where
  \<comment> \<open>\<open>std::copy(init.begin(), init.end(), d_first)\<close> from an initializer list\<close>
  "std_copy_init h init d_first = copy_list h init (fst d_first) (snd d_first)"

fun copy_n :: "'a heap \<Rightarrow> pointer \<Rightarrow> nat \<Rightarrow> nat \<Rightarrow> pointer \<Rightarrow> nat \<Rightarrow> error + 'a heap" where
  "copy_n h p first 0 d d_first = Inr h"
| "copy_n h p first (Suc n) d d_first =
     and_then (load h p first) (\<lambda>x.
     and_then (store h d d_first x) (\<lambda>h'.
     copy_n h' p (Suc first) n d (Suc d_first)))"

definition std_copy :: "'a heap \<Rightarrow> iterator \<Rightarrow> iterator \<Rightarrow> iterator \<Rightarrow> error + 'a heap" where
  "std_copy h first lst d_first =
     (if valid_range first lst
      then copy_n h (fst first) (snd first) (snd lst - snd first) (fst d_first) (snd d_first)
      else Inl Undefined)"

text \<open>
  \<open>*d = std::move(*s)\<close>: the destination takes the value, the source is left moved-from.
\<close>

definition move_assign_elem ::
  "'a Type \<Rightarrow> 'a heap \<Rightarrow> pointer \<Rightarrow> nat \<Rightarrow> pointer \<Rightarrow> nat \<Rightarrow> error + 'a heap" where
  "move_assign_elem T h d i s j =
     and_then (load h s j) (\<lambda>x.
     and_then (store h d i x) (\<lambda>h'.
     store h' s j (moved_from T x)))"

fun move_n ::
  "'a Type \<Rightarrow> 'a heap \<Rightarrow> pointer \<Rightarrow> nat \<Rightarrow> nat \<Rightarrow> pointer \<Rightarrow> nat \<Rightarrow> error + 'a heap" where
  "move_n T h p first 0 d d_first = Inr h"
| "move_n T h p first (Suc n) d d_first =
     and_then (move_assign_elem T h d d_first p first) (\<lambda>h'.
     move_n T h' p (Suc first) n d (Suc d_first))"

definition std_move ::
  "'a Type \<Rightarrow> 'a heap \<Rightarrow> iterator \<Rightarrow> iterator \<Rightarrow> iterator \<Rightarrow> error + 'a heap" where
  "std_move T h first lst d_first =
     (if valid_range first lst
      then move_n T h (fst first) (snd first) (snd lst - snd first) (fst d_first) (snd d_first)
      else Inl Undefined)"

fun move_backward_n ::
  "'a Type \<Rightarrow> 'a heap \<Rightarrow> pointer \<Rightarrow> nat \<Rightarrow> nat \<Rightarrow> pointer \<Rightarrow> nat \<Rightarrow> error + 'a heap" where
  "move_backward_n T h p lst 0 d d_last = Inr h"
| "move_backward_n T h p lst (Suc n) d d_last =
     and_then (move_assign_elem T h d (d_last - 1) p (lst - 1)) (\<lambda>h'.
     move_backward_n T h' p (lst - 1) n d (d_last - 1))"

definition std_move_backward ::
  "'a Type \<Rightarrow> 'a heap \<Rightarrow> iterator \<Rightarrow> iterator \<Rightarrow> iterator \<Rightarrow> error + 'a heap" where
  "std_move_backward T h first lst d_last =
     (if valid_range first lst
      then move_backward_n T h (fst first) (snd lst) (snd lst - snd first)
             (fst d_last) (snd d_last)
      else Inl Undefined)"

section \<open>\<open>SimpleVector\<close> (src/simple-vector/simple_vector.h)\<close>

text \<open>The fields \<open>size_\<close>, \<open>capacity_\<close> and \<open>data_\<close> are \<open>m_size\<close>, \<open>m_capacity\<close> and \<open>m_data\<close>.\<close>

record SimpleVector =
  m_size :: nat
  m_capacity :: nat
  m_data :: pointer

definition begin_it :: "SimpleVector \<Rightarrow> iterator" where
  \<comment> \<open>\<open>begin()\<close>\<close>
  "begin_it v = Get (m_data v)"

definition end_it :: "SimpleVector \<Rightarrow> iterator" where
  \<comment> \<open>\<open>end()\<close>\<close>
  "end_it v = ptr_add (Get (m_data v)) (m_size v)"

text \<open>
  The constructors return the free store and the new object. Members are initialised in
  the order of their declaration: \<open>size_\<close>, \<open>capacity_\<close>, \<open>data_\<close>.
\<close>

definition SimpleVector_default :: SimpleVector where
  "SimpleVector_default = \<lparr>m_size = 0, m_capacity = 0, m_data = None\<rparr>"

definition SimpleVector_reserve ::
  "'a Type \<Rightarrow> 'a heap \<Rightarrow> nat \<Rightarrow> error + ('a heap \<times> SimpleVector)" where
  \<comment> \<open>\<open>explicit SimpleVector(ReserveProxy proxy)\<close>, with \<open>proxy.capacity\<close> as the argument\<close>
  "SimpleVector_reserve T h capacity =
     and_then (ArrayPtr_size T h capacity) (\<lambda>(h1, d).
     Inr (h1, \<lparr>m_size = 0, m_capacity = capacity, m_data = d\<rparr>))"

definition SimpleVector_size ::
  "'a Type \<Rightarrow> 'a heap \<Rightarrow> nat \<Rightarrow> error + ('a heap \<times> SimpleVector)" where
  "SimpleVector_size T h n =
     and_then (ArrayPtr_size T h n) (\<lambda>(h1, d).
     and_then (if n > 0 then std_fill h1 (Get d) (ptr_add (Get d) n) (value_init T)
               else Inr h1) (\<lambda>h2.
     Inr (h2, \<lparr>m_size = n, m_capacity = n, m_data = d\<rparr>)))"

definition SimpleVector_fill ::
  "'a Type \<Rightarrow> 'a heap \<Rightarrow> nat \<Rightarrow> 'a \<Rightarrow> error + ('a heap \<times> SimpleVector)" where
  "SimpleVector_fill T h n val =
     and_then (ArrayPtr_size T h n) (\<lambda>(h1, d).
     and_then (if n > 0 then std_fill h1 (Get d) (ptr_add (Get d) n) val
               else Inr h1) (\<lambda>h2.
     Inr (h2, \<lparr>m_size = n, m_capacity = n, m_data = d\<rparr>)))"

definition SimpleVector_init ::
  "'a Type \<Rightarrow> 'a heap \<Rightarrow> 'a list \<Rightarrow> error + ('a heap \<times> SimpleVector)" where
  "SimpleVector_init T h init =
     and_then (ArrayPtr_size T h (length init)) (\<lambda>(h1, d).
     and_then (if length init > 0 then std_copy_init h1 init (Get d) else Inr h1) (\<lambda>h2.
     Inr (h2, \<lparr>m_size = length init, m_capacity = length init, m_data = d\<rparr>)))"

definition SimpleVector_copy ::
  "'a Type \<Rightarrow> 'a heap \<Rightarrow> SimpleVector \<Rightarrow> error + ('a heap \<times> SimpleVector)" where
  "SimpleVector_copy T h other =
     and_then (ArrayPtr_size T h (m_size other)) (\<lambda>(h1, d).
     and_then (if m_size other > 0 then std_copy h1 (begin_it other) (end_it other) (Get d)
               else Inr h1) (\<lambda>h2.
     Inr (h2, \<lparr>m_size = m_size other, m_capacity = m_size other, m_data = d\<rparr>)))"

definition SimpleVector_move :: "SimpleVector \<Rightarrow> SimpleVector \<times> SimpleVector" where
  \<comment> \<open>the new object and what is left of \<open>other\<close>\<close>
  "SimpleVector_move other =
     (let s = m_size other; other1 = other\<lparr>m_size := 0\<rparr>;
          c = m_capacity other1; other2 = other1\<lparr>m_capacity := 0\<rparr>;
          (d, r) = Release (m_data other2); other3 = other2\<lparr>m_data := r\<rparr>
      in (\<lparr>m_size = s, m_capacity = c, m_data = d\<rparr>, other3))"

definition SimpleVector_destroy :: "'a heap \<Rightarrow> SimpleVector \<Rightarrow> error + 'a heap" where
  \<comment> \<open>\<open>~SimpleVector() = default\<close> destroys the member \<open>m_data\<close>\<close>
  "SimpleVector_destroy h v = ArrayPtr_destroy h (m_data v)"

definition Reserve ::
  "'a Type \<Rightarrow> 'a heap \<Rightarrow> SimpleVector \<Rightarrow> nat \<Rightarrow> error + ('a heap \<times> SimpleVector)" where
  "Reserve T h v new_capacity =
     (if new_capacity > m_capacity v then
        and_then (ArrayPtr_size T h new_capacity) (\<lambda>(h1, new_data).
        and_then (std_move T h1 (Get (m_data v)) (ptr_add (Get (m_data v)) (m_size v))
                    (Get new_data)) (\<lambda>h2.
        let (d, new_data') = ArrayPtr_swap (m_data v) new_data;
            v' = v\<lparr>m_data := d, m_capacity := new_capacity\<rparr>
        in and_then (ArrayPtr_destroy h2 new_data') (\<lambda>h3. Inr (h3, v'))))
      else Inr (h, v))"

definition GetSize :: "SimpleVector \<Rightarrow> nat" where
  "GetSize v = m_size v"

definition GetCapacity :: "SimpleVector \<Rightarrow> nat" where
  "GetCapacity v = m_capacity v"

definition IsEmpty :: "SimpleVector \<Rightarrow> bool" where
  "IsEmpty v \<longleftrightarrow> m_size v = 0"

definition index_op :: "'a heap \<Rightarrow> SimpleVector \<Rightarrow> nat \<Rightarrow> error + 'a" where
  \<comment> \<open>\<open>operator[]\<close>, read through the returned reference\<close>
  "index_op h v index = load h (m_data v) index"

definition index_assign :: "'a heap \<Rightarrow> SimpleVector \<Rightarrow> nat \<Rightarrow> 'a \<Rightarrow> error + 'a heap" where
  \<comment> \<open>\<open>v[index] = x\<close>, a write through the reference \<open>operator[]\<close> returns\<close>
  "index_assign h v index x = store h (m_data v) index x"

definition At :: "'a heap \<Rightarrow> SimpleVector \<Rightarrow> nat \<Rightarrow> error + 'a" where
  "At h v index =
     (if index \<ge> m_size v then Inl OutOfRange else load h (m_data v) index)"

definition At_assign :: "'a heap \<Rightarrow> SimpleVector \<Rightarrow> nat \<Rightarrow> 'a \<Rightarrow> error + 'a heap" where
  \<comment> \<open>\<open>v.At(index) = x\<close>, a write through the reference \<open>At\<close> returns\<close>
  "At_assign h v index x =
     (if index \<ge> m_size v then Inl OutOfRange else store h (m_data v) index x)"

definition Clear :: "SimpleVector \<Rightarrow> SimpleVector" where
  "Clear v = v\<lparr>m_size := 0\<rparr>"

definition Resize ::
  "'a Type \<Rightarrow> 'a heap \<Rightarrow> SimpleVector \<Rightarrow> nat \<Rightarrow> error + ('a heap \<times> SimpleVector)" where
  "Resize T h v new_size =
     (if new_size \<le> m_size v then Inr (h, v\<lparr>m_size := new_size\<rparr>)
      else if new_size \<le> m_capacity v then
        and_then (fill_n h (m_data v) (m_size v) (new_size - m_size v) (value_init T)) (\<lambda>h1.
        Inr (h1, v\<lparr>m_size := new_size\<rparr>))
      else
        let new_capacity = max new_size (size_t (m_capacity v * 2)) in
        and_then (ArrayPtr_size T h new_capacity) (\<lambda>(h1, new_data).
        and_then (std_move T h1 (Get (m_data v)) (ptr_add (Get (m_data v)) (m_size v))
                    (Get new_data)) (\<lambda>h2.
        and_then (fill_n h2 new_data (m_size v) (new_size - m_size v) (value_init T)) (\<lambda>h3.
        let (d, new_data') = ArrayPtr_swap (m_data v) new_data;
            v' = v\<lparr>m_data := d, m_size := new_size, m_capacity := new_capacity\<rparr>
        in and_then (ArrayPtr_destroy h3 new_data') (\<lambda>h4. Inr (h4, v'))))))"

definition PushBack ::
  "'a Type \<Rightarrow> 'a heap \<Rightarrow> SimpleVector \<Rightarrow> 'a \<Rightarrow> error + ('a heap \<times> SimpleVector)" where
  \<comment> \<open>\<open>void PushBack(const Type& item)\<close>\<close>
  "PushBack T h v item =
     and_then
       (if m_size v \<ge> m_capacity v then
          let new_capacity = (if m_capacity v = 0 then 1 else size_t (m_capacity v * 2)) in
          and_then (ArrayPtr_size T h new_capacity) (\<lambda>(h1, new_data).
          and_then (std_move T h1 (Get (m_data v)) (ptr_add (Get (m_data v)) (m_size v))
                      (Get new_data)) (\<lambda>h2.
          and_then (store h2 new_data (m_size v) item) (\<lambda>h3.
          let (d, new_data') = ArrayPtr_swap (m_data v) new_data;
              v' = v\<lparr>m_data := d, m_capacity := new_capacity\<rparr>
          in and_then (ArrayPtr_destroy h3 new_data') (\<lambda>h4. Inr (h4, v')))))
        else
          and_then (store h (m_data v) (m_size v) item) (\<lambda>h1. Inr (h1, v)))
       (\<lambda>(h', v'). Inr (h', v'\<lparr>m_size := size_t (m_size v' + 1)\<rparr>))"

definition PushBack_move ::
  "'a Type \<Rightarrow> 'a heap \<Rightarrow> SimpleVector \<Rightarrow> 'a \<Rightarrow> error + ('a heap \<times> SimpleVector \<times> 'a)" where
  \<comment> \<open>\<open>void PushBack(Type&& item)\<close>; the third component is what is left in \<open>item\<close>\<close>
  "PushBack_move T h v item =
     and_then
       (if m_size v \<ge> m_capacity v then
          let new_capacity = (if m_capacity v = 0 then 1 else size_t (m_capacity v * 2)) in
          and_then (ArrayPtr_size T h new_capacity) (\<lambda>(h1, new_data).
          and_then (std_move T h1 (Get (m_data v)) (ptr_add (Get (m_data v)) (m_size v))
                      (Get new_data)) (\<lambda>h2.
          and_then (store h2 new_data (m_size v) item) (\<lambda>h3.
          let (d, new_data') = ArrayPtr_swap (m_data v) new_data;
              v' = v\<lparr>m_data := d, m_capacity := new_capacity\<rparr>
          in and_then (ArrayPtr_destroy h3 new_data') (\<lambda>h4. Inr (h4, v')))))
        else
          and_then (store h (m_data v) (m_size v) item) (\<lambda>h1. Inr (h1, v)))
       (\<lambda>(h', v'). Inr (h', v'\<lparr>m_size := size_t (m_size v' + 1)\<rparr>, moved_from T item))"

definition InsertImpl ::
  "'a Type \<Rightarrow> 'a heap \<Rightarrow> SimpleVector \<Rightarrow> iterator \<Rightarrow> 'a
     \<Rightarrow> error + ('a heap \<times> SimpleVector \<times> iterator)" where
  "InsertImpl T h v pos val =
     and_then (ptr_diff pos (begin_it v)) (\<lambda>offset.
     and_then
       (if m_size v \<ge> m_capacity v then
          let new_capacity = (if m_capacity v = 0 then 1 else size_t (m_capacity v * 2)) in
          and_then (ArrayPtr_size T h new_capacity) (\<lambda>(h1, new_data).
          and_then (std_move T h1 (Get (m_data v)) (ptr_add (Get (m_data v)) offset)
                      (Get new_data)) (\<lambda>h2.
          and_then (store h2 new_data offset val) (\<lambda>h3.
          and_then (std_move T h3 (ptr_add (Get (m_data v)) offset)
                      (ptr_add (Get (m_data v)) (m_size v))
                      (ptr_add (ptr_add (Get new_data) offset) 1)) (\<lambda>h4.
          let (d, new_data') = ArrayPtr_swap (m_data v) new_data;
              v' = v\<lparr>m_data := d, m_capacity := new_capacity\<rparr>
          in and_then (ArrayPtr_destroy h4 new_data') (\<lambda>h5. Inr (h5, v'))))))
        else
          and_then (std_move_backward T h (ptr_add (Get (m_data v)) offset)
                      (ptr_add (Get (m_data v)) (m_size v))
                      (ptr_add (ptr_add (Get (m_data v)) (m_size v)) 1)) (\<lambda>h1.
          and_then (store h1 (m_data v) offset val) (\<lambda>h2. Inr (h2, v))))
       (\<lambda>(h', v').
          let v'' = v'\<lparr>m_size := size_t (m_size v' + 1)\<rparr>
          in Inr (h', v'', ptr_add (begin_it v'') offset)))"

definition Insert ::
  "'a Type \<Rightarrow> 'a heap \<Rightarrow> SimpleVector \<Rightarrow> iterator \<Rightarrow> 'a
     \<Rightarrow> error + ('a heap \<times> SimpleVector \<times> iterator)" where
  \<comment> \<open>\<open>Iterator Insert(ConstIterator pos, const Type& value)\<close>\<close>
  "Insert T h v pos val = InsertImpl T h v pos val"

definition Insert_move ::
  "'a Type \<Rightarrow> 'a heap \<Rightarrow> SimpleVector \<Rightarrow> iterator \<Rightarrow> 'a
     \<Rightarrow> error + ('a heap \<times> SimpleVector \<times> iterator \<times> 'a)" where
  \<comment> \<open>\<open>Iterator Insert(ConstIterator pos, Type&& value)\<close>; the last component is what is
      left in \<open>value\<close>\<close>
  "Insert_move T h v pos val =
     and_then (InsertImpl T h v pos val) (\<lambda>(h', v', it). Inr (h', v', it, moved_from T val))"

definition PopBack :: "SimpleVector \<Rightarrow> error + SimpleVector" where
  "PopBack v =
     (if m_size v > 0 then Inr (v\<lparr>m_size := size_t (m_size v + 2 ^ 64 - 1)\<rparr>)
      else Inl AssertionFailed)"

definition Erase ::
  "'a Type \<Rightarrow> 'a heap \<Rightarrow> SimpleVector \<Rightarrow> iterator
     \<Rightarrow> error + ('a heap \<times> SimpleVector \<times> iterator)" where
  "Erase T h v pos =
     and_then (ptr_diff pos (begin_it v)) (\<lambda>offset.
     and_then (std_move T h (ptr_add (ptr_add (Get (m_data v)) offset) 1)
                 (ptr_add (Get (m_data v)) (m_size v))
                 (ptr_add (Get (m_data v)) offset)) (\<lambda>h1.
     let v' = v\<lparr>m_size := size_t (m_size v + 2 ^ 64 - 1)\<rparr>
     in Inr (h1, v', ptr_add (begin_it v') offset)))"

definition swap :: "SimpleVector \<Rightarrow> SimpleVector \<Rightarrow> SimpleVector \<times> SimpleVector" where
  \<comment> \<open>the new \<open>*this\<close> and the new \<open>other\<close>, for two distinct objects\<close>
  "swap v other =
     (let (d, od) = ArrayPtr_swap (m_data v) (m_data other);
          v1 = v\<lparr>m_data := d\<rparr>; other1 = other\<lparr>m_data := od\<rparr>;
          v2 = v1\<lparr>m_size := m_size other1\<rparr>; other2 = other1\<lparr>m_size := m_size v1\<rparr>;
          v3 = v2\<lparr>m_capacity := m_capacity other2\<rparr>; other3 = other2\<lparr>m_capacity := m_capacity v2\<rparr>
      in (v3, other3))"

section \<open>\<open>SimpleVector\<close> (src/unnamed/part_001)\<close>

text \<open>
  The second variant of the header. Its members \<open>At\<close>, \<open>Clear\<close>, \<open>PopBack\<close>, \<open>swap\<close>,
  the queries, the default, reserving and move constructors and the two assignment
  operators are the same text as in the first variant; the members below differ from it. A constructor body runs on the
  object whose members are already initialised, so \<open>begin()\<close> and \<open>end()\<close> there are those of
  the new object.
\<close>

definition SimpleVector_size_p ::
  "'a Type \<Rightarrow> 'a heap \<Rightarrow> nat \<Rightarrow> error + ('a heap \<times> SimpleVector)" where
  "SimpleVector_size_p T h n =
     and_then (ArrayPtr_size T h n) (\<lambda>(h1, d).
     let v = \<lparr>m_size = n, m_capacity = n, m_data = d\<rparr> in
     and_then (std_fill h1 (begin_it v) (end_it v) (value_init T)) (\<lambda>h2. Inr (h2, v)))"

definition SimpleVector_fill_p ::
  "'a Type \<Rightarrow> 'a heap \<Rightarrow> nat \<Rightarrow> 'a \<Rightarrow> error + ('a heap \<times> SimpleVector)" where
  "SimpleVector_fill_p T h n val =
     and_then (ArrayPtr_size T h n) (\<lambda>(h1, d).
     let v = \<lparr>m_size = n, m_capacity = n, m_data = d\<rparr> in
     and_then (std_fill h1 (begin_it v) (end_it v) val) (\<lambda>h2. Inr (h2, v)))"

definition SimpleVector_init_p ::
  "'a Type \<Rightarrow> 'a heap \<Rightarrow> 'a list \<Rightarrow> error + ('a heap \<times> SimpleVector)" where
  "SimpleVector_init_p T h init =
     and_then (ArrayPtr_size T h (length init)) (\<lambda>(h1, d).
     let v = \<lparr>m_size = length init, m_capacity = length init, m_data = d\<rparr> in
     and_then (std_copy_init h1 init (begin_it v)) (\<lambda>h2. Inr (h2, v)))"

definition SimpleVector_copy_p ::
  "'a Type \<Rightarrow> 'a heap \<Rightarrow> SimpleVector \<Rightarrow> error + ('a heap \<times> SimpleVector)" where
  "SimpleVector_copy_p T h other =
     and_then (ArrayPtr_size T h (m_size other)) (\<lambda>(h1, d).
     let v = \<lparr>m_size = m_size other, m_capacity = m_size other, m_data = d\<rparr> in
     and_then (std_copy h1 (begin_it other) (end_it other) (begin_it v)) (\<lambda>h2. Inr (h2, v)))"

definition Reserve_p ::
  "'a Type \<Rightarrow> 'a heap \<Rightarrow> SimpleVector \<Rightarrow> nat \<Rightarrow> error + ('a heap \<times> SimpleVector)" where
  "Reserve_p T h v new_capacity =
     (if new_capacity > m_capacity v then
        and_then (ArrayPtr_size T h new_capacity) (\<lambda>(h1, new_data).
        and_then (std_move T h1 (begin_it v) (end_it v) (Get new_data)) (\<lambda>h2.
        let (d, new_data') = ArrayPtr_swap (m_data v) new_data;
            v' = v\<lparr>m_data := d, m_capacity := new_capacity\<rparr>
        in and_then (ArrayPtr_destroy h2 new_data') (\<lambda>h3. Inr (h3, v'))))
      else Inr (h, v))"

definition Resize_p ::
  "'a Type \<Rightarrow> 'a heap \<Rightarrow> SimpleVector \<Rightarrow> nat \<Rightarrow> error + ('a heap \<times> SimpleVector)" where
  "Resize_p T h v new_size =
     (if new_size \<le> m_size v then Inr (h, v\<lparr>m_size := new_size\<rparr>)
      else if new_size \<le> m_capacity v then
        and_then (fill_n h (m_data v) (m_size v) (new_size - m_size v) (value_init T)) (\<lambda>h1.
        Inr (h1, v\<lparr>m_size := new_size\<rparr>))
      else
        let new_capacity = max new_size (size_t (m_capacity v * 2)) in
        and_then (ArrayPtr_size T h new_capacity) (\<lambda>(h1, new_data).
        and_then (std_move T h1 (begin_it v) (end_it v) (Get new_data)) (\<lambda>h2.
        and_then (fill_n h2 new_data (m_size v) (new_size - m_size v) (value_init T)) (\<lambda>h3.
        let (d, new_data') = ArrayPtr_swap (m_data v) new_data;
            v' = v\<lparr>m_data := d, m_size := new_size, m_capacity := new_capacity\<rparr>
        in and_then (ArrayPtr_destroy h3 new_data') (\<lambda>h4. Inr (h4, v'))))))"

definition PushBack_p ::
  "'a Type \<Rightarrow> 'a heap \<Rightarrow> SimpleVector \<Rightarrow> 'a \<Rightarrow> error + ('a heap \<times> SimpleVector)" where
  "PushBack_p T h v item =
     and_then
       (if m_size v \<ge> m_capacity v
        then Reserve_p T h v (if m_capacity v = 0 then 1 else size_t (m_capacity v * 2))
        else Inr (h, v)) (\<lambda>(h1, v1).
     and_then (store h1 (m_data v1) (m_size v1) item) (\<lambda>h2.
     Inr (h2, v1\<lparr>m_size := size_t (m_size v1 + 1)\<rparr>)))"

definition PushBack_move_p ::
  "'a Type \<Rightarrow> 'a heap \<Rightarrow> SimpleVector \<Rightarrow> 'a \<Rightarrow> error + ('a heap \<times> SimpleVector \<times> 'a)" where
  "PushBack_move_p T h v item =
     and_then
       (if m_size v \<ge> m_capacity v
        then Reserve_p T h v (if m_capacity v = 0 then 1 else size_t (m_capacity v * 2))
        else Inr (h, v)) (\<lambda>(h1, v1).
     and_then (store h1 (m_data v1) (m_size v1) item) (\<lambda>h2.
     Inr (h2, v1\<lparr>m_size := size_t (m_size v1 + 1)\<rparr>, moved_from T item)))"

definition InsertImpl_p ::
  "'a Type \<Rightarrow> 'a heap \<Rightarrow> SimpleVector \<Rightarrow> iterator \<Rightarrow> 'a
     \<Rightarrow> error + ('a heap \<times> SimpleVector \<times> iterator)" where
  "InsertImpl_p T h v pos val =
     and_then (ptr_diff pos (begin_it v)) (\<lambda>offset.
     and_then
       (if m_size v \<ge> m_capacity v
        then Reserve_p T h v (if m_capacity v = 0 then 1 else size_t (m_capacity v * 2))
        else Inr (h, v)) (\<lambda>(h1, v1).
     and_then (std_move_backward T h1 (ptr_add (begin_it v1) offset) (end_it v1)
                 (ptr_add (end_it v1) 1)) (\<lambda>h2.
     and_then (store h2 (m_data v1) offset val) (\<lambda>h3.
     let v2 = v1\<lparr>m_size := size_t (m_size v1 + 1)\<rparr>
     in Inr (h3, v2, ptr_add (begin_it v2) offset)))))"

definition Insert_p ::
  "'a Type \<Rightarrow> 'a heap \<Rightarrow> SimpleVector \<Rightarrow> iterator \<Rightarrow> 'a
     \<Rightarrow> error + ('a heap \<times> SimpleVector \<times> iterator)" where
  "Insert_p T h v pos val = InsertImpl_p T h v pos val"

definition Insert_move_p ::
  "'a Type \<Rightarrow> 'a heap \<Rightarrow> SimpleVector \<Rightarrow> iterator \<Rightarrow> 'a
     \<Rightarrow> error + ('a heap \<times> SimpleVector \<times> iterator \<times> 'a)" where
  "Insert_move_p T h v pos val =
     and_then (InsertImpl_p T h v pos val) (\<lambda>(h', v', it).
     Inr (h', v', it, moved_from T val))"

definition Erase_p ::
  "'a Type \<Rightarrow> 'a heap \<Rightarrow> SimpleVector \<Rightarrow> iterator
     \<Rightarrow> error + ('a heap \<times> SimpleVector \<times> iterator)" where
  "Erase_p T h v pos =
     and_then (ptr_diff pos (begin_it v)) (\<lambda>offset.
     and_then (std_move T h (ptr_add (ptr_add (begin_it v) offset) 1) (end_it v)
                 (ptr_add (begin_it v) offset)) (\<lambda>h1.
     let v' = v\<lparr>m_size := size_t (m_size v + 2 ^ 64 - 1)\<rparr>
     in Inr (h1, v', ptr_add (begin_it v') offset)))"

section \<open>Programs over several vectors\<close>

text \<open>
  The objects of a program live in a list; an object is named by its index, so that
  \<open>this != &rhs\<close> is the comparison of two indices. A constructor appends its object.
\<close>

record 'a world =
  free_store :: "'a heap"
  objects :: "SimpleVector list"

datatype variant = Header | Part_001

definition copy_construct ::
  "variant \<Rightarrow> 'a Type \<Rightarrow> 'a heap \<Rightarrow> SimpleVector \<Rightarrow> error + ('a heap \<times> SimpleVector)" where
  "copy_construct var T h other =
     (case var of Header \<Rightarrow> SimpleVector_copy T h other
                | Part_001 \<Rightarrow> SimpleVector_copy_p T h other)"

definition construct_move :: "'a world \<Rightarrow> nat \<Rightarrow> 'a world" where
  \<comment> \<open>\<open>SimpleVector(SimpleVector&& other)\<close> on the object \<open>other\<close> of the program\<close>
  "construct_move w other =
     (let (v, other') = SimpleVector_move (objects w ! other)
      in w\<lparr>objects := (objects w)[other := other'] @ [v]\<rparr>)"

definition assign_copy ::
  "variant \<Rightarrow> 'a Type \<Rightarrow> 'a world \<Rightarrow> nat \<Rightarrow> nat \<Rightarrow> error + 'a world" where
  \<comment> \<open>\<open>operator=(const SimpleVector& rhs)\<close>; \<open>temp\<close> is destroyed at the end of its block\<close>
  "assign_copy var T w this rhs =
     (if this \<noteq> rhs then
        and_then (copy_construct var T (free_store w) (objects w ! rhs)) (\<lambda>(h1, temp).
        let (v, temp') = swap (objects w ! this) temp in
        and_then (SimpleVector_destroy h1 temp') (\<lambda>h2.
        Inr \<lparr>free_store = h2, objects = (objects w)[this := v]\<rparr>))
      else Inr w)"

definition assign_move :: "'a world \<Rightarrow> nat \<Rightarrow> nat \<Rightarrow> 'a world" where
  \<comment> \<open>\<open>operator=(SimpleVector&& rhs)\<close>\<close>
  "assign_move w this rhs =
     (if this \<noteq> rhs then
        let (v, r) = swap (objects w ! this) (objects w ! rhs);
            r' = Clear r
        in w\<lparr>objects := (objects w)[this := v, rhs := r']\<rparr>
      else w)"

definition swap_objects :: "'a world \<Rightarrow> nat \<Rightarrow> nat \<Rightarrow> 'a world" where
  \<comment> \<open>\<open>a.swap(b)\<close>\<close>
  "swap_objects w a b =
     (let (v, other) = swap (objects w ! a) (objects w ! b)
      in w\<lparr>objects := (objects w)[a := v, b := other]\<rparr>)"

text \<open>A call of the public interface, and what it returns to the caller.\<close>

datatype 'a call =
    New_default
  | New_reserve nat
  | New_size nat
  | New_fill nat 'a
  | New_init "'a list"
  | New_copy nat
  | New_move nat
  | Assign_copy nat nat
  | Assign_move nat nat
  | Call_Reserve nat nat
  | Call_GetSize nat
  | Call_GetCapacity nat
  | Call_IsEmpty nat
  | Call_index nat nat
  | Call_index_assign nat nat 'a
  | Call_At nat nat
  | Call_At_assign nat nat 'a
  | Call_Clear nat
  | Call_Resize nat nat
  | Call_PushBack nat 'a
  | Call_PushBack_move nat 'a
  | Call_Insert nat iterator 'a
  | Call_Insert_move nat iterator 'a
  | Call_PopBack nat
  | Call_Erase nat iterator
  | Call_swap nat nat
  | Call_begin nat
  | Call_end nat

datatype 'a result =
    Done
  | Number nat
  | Truth bool
  | Element 'a
  | Position iterator
  | Left_over 'a
  | Position_left_over iterator 'a

fun refs :: "'a call \<Rightarrow> nat list" where
  "refs New_default = []"
| "refs (New_reserve n) = []"
| "refs (New_size n) = []"
| "refs (New_fill n x) = []"
| "refs (New_init xs) = []"
| "refs (New_copy other) = [other]"
| "refs (New_move other) = [other]"
| "refs (Assign_copy this rhs) = [this, rhs]"
| "refs (Assign_move this rhs) = [this, rhs]"
| "refs (Call_Reserve this n) = [this]"
| "refs (Call_GetSize this) = [this]"
| "refs (Call_GetCapacity this) = [this]"
| "refs (Call_IsEmpty this) = [this]"
| "refs (Call_index this i) = [this]"
| "refs (Call_index_assign this i x) = [this]"
| "refs (Call_At this i) = [this]"
| "refs (Call_At_assign this i x) = [this]"
| "refs (Call_Clear this) = [this]"
| "refs (Call_Resize this n) = [this]"
| "refs (Call_PushBack this x) = [this]"
| "refs (Call_PushBack_move this x) = [this]"
| "refs (Call_Insert this pos x) = [this]"
| "refs (Call_Insert_move this pos x) = [this]"
| "refs (Call_PopBack this) = [this]"
| "refs (Call_Erase this pos) = [this]"
| "refs (Call_swap this other) = [this, other]"
| "refs (Call_begin this) = [this]"
| "refs (Call_end this) = [this]"

definition constructed ::
  "'a world \<Rightarrow> error + ('a heap \<times> SimpleVector) \<Rightarrow> error + ('a world \<times> 'a result)" where
  "constructed w r =
     and_then r (\<lambda>(h, v). Inr (\<lparr>free_store = h, objects = objects w @ [v]\<rparr>, Done))"

definition updated ::
  "'a world \<Rightarrow> nat \<Rightarrow> 'a heap \<Rightarrow> SimpleVector \<Rightarrow> 'a result
     \<Rightarrow> error + ('a world \<times> 'a result)" where
  "updated w this h v r = Inr (\<lparr>free_store = h, objects = (objects w)[this := v]\<rparr>, r)"

fun member_call ::
  "variant \<Rightarrow> 'a Type \<Rightarrow> 'a world \<Rightarrow> 'a call \<Rightarrow> error + ('a world \<times> 'a result)" where
  "member_call var T w New_default =
     constructed w (Inr (free_store w, SimpleVector_default))"
| "member_call var T w (New_reserve n) =
     constructed w (SimpleVector_reserve T (free_store w) n)"
| "member_call var T w (New_size n) =
     constructed w (case var of Header \<Rightarrow> SimpleVector_size T (free_store w) n
                              | Part_001 \<Rightarrow> SimpleVector_size_p T (free_store w) n)"
| "member_call var T w (New_fill n x) =
     constructed w (case var of Header \<Rightarrow> SimpleVector_fill T (free_store w) n x
                              | Part_001 \<Rightarrow> SimpleVector_fill_p T (free_store w) n x)"
| "member_call var T w (New_init xs) =
     constructed w (case var of Header \<Rightarrow> SimpleVector_init T (free_store w) xs
                              | Part_001 \<Rightarrow> SimpleVector_init_p T (free_store w) xs)"
| "member_call var T w (New_copy other) =
     constructed w (copy_construct var T (free_store w) (objects w ! other))"
| "member_call var T w (New_move other) = Inr (construct_move w other, Done)"
| "member_call var T w (Assign_copy this rhs) =
     and_then (assign_copy var T w this rhs) (\<lambda>w'. Inr (w', Done))"
| "member_call var T w (Assign_move this rhs) = Inr (assign_move w this rhs, Done)"
| "member_call var T w (Call_Reserve this n) =
     and_then (case var of Header \<Rightarrow> Reserve T (free_store w) (objects w ! this) n
                         | Part_001 \<Rightarrow> Reserve_p T (free_store w) (objects w ! this) n)
       (\<lambda>(h, v). updated w this h v Done)"
| "member_call var T w (Call_GetSize this) = Inr (w, Number (GetSize (objects w ! this)))"
| "member_call var T w (Call_GetCapacity this) =
     Inr (w, Number (GetCapacity (objects w ! this)))"
| "member_call var T w (Call_IsEmpty this) = Inr (w, Truth (IsEmpty (objects w ! this)))"
| "member_call var T w (Call_index this i) =
     and_then (index_op (free_store w) (objects w ! this) i) (\<lambda>x. Inr (w, Element x))"
| "member_call var T w (Call_index_assign this i x) =
     and_then (index_assign (free_store w) (objects w ! this) i x) (\<lambda>h.
     Inr (w\<lparr>free_store := h\<rparr>, Done))"
| "member_call var T w (Call_At this i) =
     and_then (At (free_store w) (objects w ! this) i) (\<lambda>x. Inr (w, Element x))"
| "member_call var T w (Call_At_assign this i x) =
     and_then (At_assign (free_store w) (objects w ! this) i x) (\<lambda>h.
     Inr (w\<lparr>free_store := h\<rparr>, Done))"
| "member_call var T w (Call_Clear this) =
     updated w this (free_store w) (Clear (objects w ! this)) Done"
| "member_call var T w (Call_Resize this n) =
     and_then (case var of Header \<Rightarrow> Resize T (free_store w) (objects w ! this) n
                         | Part_001 \<Rightarrow> Resize_p T (free_store w) (objects w ! this) n)
       (\<lambda>(h, v). updated w this h v Done)"
| "member_call var T w (Call_PushBack this x) =
     and_then (case var of Header \<Rightarrow> PushBack T (free_store w) (objects w ! this) x
                         | Part_001 \<Rightarrow> PushBack_p T (free_store w) (objects w ! this) x)
       (\<lambda>(h, v). updated w this h v Done)"
| "member_call var T w (Call_PushBack_move this x) =
     and_then (case var of Header \<Rightarrow> PushBack_move T (free_store w) (objects w ! this) x
                         | Part_001 \<Rightarrow> PushBack_move_p T (free_store w) (objects w ! this) x)
       (\<lambda>(h, v, y). updated w this h v (Left_over y))"
| "member_call var T w (Call_Insert this pos x) =
     and_then (case var of Header \<Rightarrow> Insert T (free_store w) (objects w ! this) pos x
                         | Part_001 \<Rightarrow> Insert_p T (free_store w) (objects w ! this) pos x)
       (\<lambda>(h, v, it). updated w this h v (Position it))"
| "member_call var T w (Call_Insert_move this pos x) =
     and_then (case var of Header \<Rightarrow> Insert_move T (free_store w) (objects w ! this) pos x
                         | Part_001 \<Rightarrow>
                             Insert_move_p T (free_store w) (objects w ! this) pos x)
       (\<lambda>(h, v, it, y). updated w this h v (Position_left_over it y))"
| "member_call var T w (Call_PopBack this) =
     and_then (PopBack (objects w ! this)) (\<lambda>v. updated w this (free_store w) v Done)"
| "member_call var T w (Call_Erase this pos) =
     and_then (case var of Header \<Rightarrow> Erase T (free_store w) (objects w ! this) pos
                         | Part_001 \<Rightarrow> Erase_p T (free_store w) (objects w ! this) pos)
       (\<lambda>(h, v, it). updated w this h v (Position it))"
| "member_call var T w (Call_swap this other) = Inr (swap_objects w this other, Done)"
| "member_call var T w (Call_begin this) = Inr (w, Position (begin_it (objects w ! this)))"
| "member_call var T w (Call_end this) = Inr (w, Position (end_it (objects w ! this)))"

text \<open>A call that names an object the program does not have is not a program.\<close>

definition step ::
  "variant \<Rightarrow> 'a Type \<Rightarrow> 'a world \<Rightarrow> 'a call \<Rightarrow> error + ('a world \<times> 'a result)" where
  "step var T w c =
     (if list_all (\<lambda>i. i < length (objects w)) (refs c) then member_call var T w c
      else Inl Undefined)"

text \<open>
  A program is a list of calls. An exception (\<open>OutOfRange\<close>, \<open>BadAlloc\<close>) is thrown before
  the call has changed anything, so the caller may catch it and go on with the state it
  had; after a failed assertion or undefined behaviour there is nothing to go on with.
  The run returns the last state and what each call returned.
\<close>

definition recoverable :: "error \<Rightarrow> bool" where
  "recoverable e \<longleftrightarrow> e = OutOfRange \<or> e = BadAlloc"

fun run ::
  "variant \<Rightarrow> 'a Type \<Rightarrow> 'a world \<Rightarrow> 'a call list
     \<Rightarrow> 'a world \<times> (error + 'a result) list" where
  "run var T w [] = (w, [])"
| "run var T w (c # cs) =
     (case step var T w c of
        Inr (w', r) \<Rightarrow> (let (w'', rs) = run var T w' cs in (w'', Inr r # rs))
      | Inl e \<Rightarrow>
          if recoverable e then (let (w'', rs) = run var T w cs in (w'', Inl e # rs))
          else (w, [Inl e]))"

definition empty_world :: "'a world" where
  "empty_world = \<lparr>free_store = [], objects = []\<rparr>"

section \<open>What a vector holds, and when a state is well formed\<close>

definition block :: "'a heap \<Rightarrow> pointer \<Rightarrow> 'a list" where
  "block h p =
     (case p of
        None \<Rightarrow> []
      | Some a \<Rightarrow> if a < length h then (case h ! a of None \<Rightarrow> [] | Some xs \<Rightarrow> xs) else [])"

definition elems :: "'a heap \<Rightarrow> SimpleVector \<Rightarrow> 'a list" where
  \<comment> \<open>the element sequence: the slots \<open>[0, size_)\<close> of the buffer\<close>
  "elems h v = take (m_size v) (block h (m_data v))"

definition owns :: "'a heap \<Rightarrow> SimpleVector \<Rightarrow> bool" where
  \<comment> \<open>\<open>data_\<close> is null with no capacity, or a live block of exactly \<open>capacity_\<close> slots\<close>
  "owns h v \<longleftrightarrow>
     (case m_data v of
        None \<Rightarrow> m_capacity v = 0
      | Some a \<Rightarrow>
          a < length h \<and>
          (case h ! a of None \<Rightarrow> False | Some xs \<Rightarrow> length xs = m_capacity v \<and> 0 < m_capacity v))"

definition wf_vector :: "'a heap \<Rightarrow> SimpleVector \<Rightarrow> bool" where
  "wf_vector h v \<longleftrightarrow> m_size v \<le> m_capacity v \<and> m_capacity v \<le> PTRDIFF_MAX \<and> owns h v"

definition separate :: "SimpleVector list \<Rightarrow> bool" where
  \<comment> \<open>no two objects hold the same block\<close>
  "separate vs \<longleftrightarrow> distinct (List.map_filter m_data vs)"

definition wf_world :: "'a world \<Rightarrow> bool" where
  "wf_world w \<longleftrightarrow>
     list_all (wf_vector (free_store w)) (objects w) \<and> separate (objects w)"

text \<open>The free store after \<open>delete[] p\<close>.\<close>

definition released :: "'a heap \<Rightarrow> pointer \<Rightarrow> 'a heap" where
  "released h p = (case p of None \<Rightarrow> h | Some a \<Rightarrow> h[a := None])"

text \<open>
  What a member call on the object holding \<open>p\<close> may do to the free store: blocks are only
  added, every old block other than the object's own stays as it is, and the object ends
  with its old block, with none, or with a block that did not exist before.
\<close>

definition touches_only :: "'a heap \<Rightarrow> pointer \<Rightarrow> 'a heap \<Rightarrow> pointer \<Rightarrow> bool" where
  "touches_only h p h' p' \<longleftrightarrow>
     length h \<le> length h'
     \<and> (\<forall>a < length h. Some a \<noteq> p \<longrightarrow> h' ! a = h ! a)
     \<and> (p' = p \<or> p' = None \<or> (\<exists>b. p' = Some b \<and> length h \<le> b))"

text \<open>
  The object \<open>i\<close> is in \<open>w'\<close> what it was in \<open>w\<close>: the same fields and, in the free store,
  the same block.
\<close>

definition untouched :: "'a world \<Rightarrow> 'a world \<Rightarrow> nat \<Rightarrow> bool" where
  "untouched w w' i \<longleftrightarrow>
     i < length (objects w') \<and> objects w' ! i = objects w ! i
     \<and> length (free_store w) \<le> length (free_store w')
     \<and> (\<forall>a. m_data (objects w ! i) = Some a \<longrightarrow> free_store w' ! a = free_store w ! a)"

text \<open>An element type for concrete runs: \<open>int\<close>, whose moved-from state is the value itself.\<close>

definition int_Type :: "int Type" where
  "int_Type = \<lparr>value_init = 0, default_init = 0, moved_from = (\<lambda>x. x)\<rparr>"

text \<open>A state with one vector \<open>{10, 20, 30}\<close> of capacity 4, for concrete instances.\<close>

definition example_world :: "int world" where
  "example_world =
     \<lparr>free_store = [Some [10, 20, 30, 0]],
      objects = [\<lparr>m_size = 3, m_capacity = 4, m_data = Some 0\<rparr>]\<rparr>"

section \<open>Basic facts\<close>

lemma and_then_Inl [simp]: "and_then (Inl e) f = Inl e"
  by (simp add: and_then_def)

lemma and_then_Inr [simp]: "and_then (Inr x) f = f x"
  by (simp add: and_then_def)

lemma load_live:
  "a < length h \<Longrightarrow> h ! a = Some xs \<Longrightarrow> i < length xs \<Longrightarrow> load h (Some a) i = Inr (xs ! i)"
  by (simp add: load_def)

lemma store_live:
  "a < length h \<Longrightarrow> h ! a = Some xs \<Longrightarrow> i < length xs \<Longrightarrow>
   store h (Some a) i x = Inr (h[a := Some (xs[i := x])])"
  by (simp add: store_def)

lemma fill_n_live:
  "a < length h \<Longrightarrow> h ! a = Some xs \<Longrightarrow> i + n \<le> length xs \<Longrightarrow>
   fill_n h (Some a) i n x = Inr (h[a := Some (take i xs @ replicate n x @ drop (i + n) xs)])"
proof (induction n arbitrary: h xs i)
  case 0
  then show ?case by (metis fill_n.simps(1) copy_list.simps(1) add.right_neutral append_Nil list.size(3) replicate_0 append_take_drop_id list_update_id)
next
  case (Suc n)
  have i: "i < length xs" using Suc.prems by simp
  have "fill_n h (Some a) i (Suc n) x =
        fill_n (h[a := Some (xs[i := x])]) (Some a) (Suc i) n x"
    using Suc.prems i by (simp add: store_live)
  also have "\<dots> = Inr ((h[a := Some (xs[i := x])])[a := Some (take (Suc i) (xs[i := x]) @ replicate n x @ drop (Suc i + n) (xs[i := x]))])"
    using Suc.prems by (intro Suc.IH) simp_all
  also have "take (Suc i) (xs[i := x]) = take i xs @ [x]"
    using i by (simp add: take_Suc_conv_app_nth)
  finally show ?case by (simp add: replicate_app_Cons_same)
qed

lemma copy_list_live:
  "a < length h \<Longrightarrow> h ! a = Some ys \<Longrightarrow> j + length init \<le> length ys \<Longrightarrow>
   copy_list h init (Some a) j = Inr (h[a := Some (take j ys @ init @ drop (j + length init) ys)])"
proof (induction init arbitrary: h ys j)
  case Nil
  then show ?case by (metis fill_n.simps(1) copy_list.simps(1) add.right_neutral append_Nil list.size(3) replicate_0 append_take_drop_id list_update_id)
next
  case (Cons x init)
  have j: "j < length ys" using Cons.prems by simp
  have "copy_list h (x # init) (Some a) j =
        copy_list (h[a := Some (ys[j := x])]) init (Some a) (Suc j)"
    using Cons.prems j by (simp add: store_live)
  also have "\<dots> = Inr ((h[a := Some (ys[j := x])])[a := Some (take (Suc j) (ys[j := x]) @ init @ drop (Suc j + length init) (ys[j := x]))])"
    using Cons.prems by (intro Cons.IH) simp_all
  also have "take (Suc j) (ys[j := x]) = take j ys @ [x]"
    using j by (simp add: take_Suc_conv_app_nth)
  finally show ?case by simp
qed

lemma copy_n_live:
  "a < length h \<Longrightarrow> b < length h \<Longrightarrow> a \<noteq> b \<Longrightarrow> h ! a = Some xs \<Longrightarrow> h ! b = Some ys \<Longrightarrow>
   i + n \<le> length xs \<Longrightarrow> j + n \<le> length ys \<Longrightarrow>
   copy_n h (Some a) i n (Some b) j =
     Inr (h[b := Some (take j ys @ take n (drop i xs) @ drop (j + n) ys)])"
proof (induction n arbitrary: h ys i j)
  case 0
  then show ?case by (metis copy_n.simps(1) add.right_neutral append_Nil take_0 append_take_drop_id list_update_id)
next
  case (Suc n)
  have i: "i < length xs" and j: "j < length ys" using Suc.prems by simp_all
  let ?h1 = "h[b := Some (ys[j := xs ! i])]"
  have "copy_n h (Some a) i (Suc n) (Some b) j = copy_n ?h1 (Some a) (Suc i) n (Some b) (Suc j)"
    using Suc.prems i j by (simp add: load_live store_live)
  also have "\<dots> = Inr (?h1[b := Some (take (Suc j) (ys[j := xs ! i]) @ take n (drop (Suc i) xs)
                        @ drop (Suc j + n) (ys[j := xs ! i]))])"
    using Suc.prems by (intro Suc.IH) simp_all
  also have "take (Suc j) (ys[j := xs ! i]) = take j ys @ [xs ! i]"
    using j by (simp add: take_Suc_conv_app_nth)
  finally have "copy_n h (Some a) i (Suc n) (Some b) j =
      Inr (?h1[b := Some ((take j ys @ [xs ! i]) @ take n (drop (Suc i) xs)
                        @ drop (Suc j + n) (ys[j := xs ! i]))])" .
  moreover have "take (Suc n) (drop i xs) = xs ! i # take n (drop (Suc i) xs)"
    using i by (simp add: Cons_nth_drop_Suc [symmetric])
  ultimately show ?case by simp
qed

lemma move_n_live:
  "a < length h \<Longrightarrow> b < length h \<Longrightarrow> a \<noteq> b \<Longrightarrow> h ! a = Some xs \<Longrightarrow> h ! b = Some ys \<Longrightarrow>
   i + n \<le> length xs \<Longrightarrow> j + n \<le> length ys \<Longrightarrow>
   move_n T h (Some a) i n (Some b) j =
     Inr (h[b := Some (take j ys @ take n (drop i xs) @ drop (j + n) ys),
            a := Some (take i xs @ map (moved_from T) (take n (drop i xs)) @ drop (i + n) xs)])"
proof (induction n arbitrary: h xs ys i j)
  case 0
  then show ?case by (metis move_n.simps(1) add.right_neutral append_Nil take_0 list.map(1) append_take_drop_id list_update_id)
next
  case (Suc n)
  have i: "i < length xs" and j: "j < length ys" using Suc.prems by simp_all
  let ?x = "xs ! i"
  let ?xs1 = "xs[i := moved_from T ?x]"
  let ?ys1 = "ys[j := ?x]"
  let ?h1 = "h[b := Some ?ys1, a := Some ?xs1]"
  have "move_n T h (Some a) i (Suc n) (Some b) j = move_n T ?h1 (Some a) (Suc i) n (Some b) (Suc j)"
    using Suc.prems i j by (simp add: move_assign_elem_def load_live store_live)
  also have "\<dots> = Inr (?h1[b := Some (take (Suc j) ?ys1 @ take n (drop (Suc i) ?xs1) @ drop (Suc j + n) ?ys1),
                          a := Some (take (Suc i) ?xs1 @ map (moved_from T) (take n (drop (Suc i) ?xs1))
                                     @ drop (Suc i + n) ?xs1)])"
    using Suc.prems by (intro Suc.IH) simp_all
  also have "take (Suc j) ?ys1 = take j ys @ [?x]"
    using j by (simp add: take_Suc_conv_app_nth)
  also have "take (Suc i) ?xs1 = take i xs @ [moved_from T ?x]"
    using i by (simp add: take_Suc_conv_app_nth)
  also have "drop (Suc i) ?xs1 = drop (Suc i) xs" by simp
  also have "drop (Suc i + n) ?xs1 = drop (Suc i + n) xs" by simp
  also have "drop (Suc j + n) ?ys1 = drop (Suc j + n) ys" by simp
  finally have "move_n T h (Some a) i (Suc n) (Some b) j =
     Inr (?h1[b := Some ((take j ys @ [?x]) @ take n (drop (Suc i) xs) @ drop (Suc j + n) ys),
              a := Some ((take i xs @ [moved_from T ?x]) @ map (moved_from T) (take n (drop (Suc i) xs))
                          @ drop (Suc i + n) xs)])" .
  moreover have "take (Suc n) (drop i xs) = ?x # take n (drop (Suc i) xs)"
    using i by (simp add: Cons_nth_drop_Suc [symmetric])
  ultimately show ?case using \<open>a \<noteq> b\<close> by (simp add: list_update_swap [of a b])
qed

lemma move_elem_same:
  "a < length h \<Longrightarrow> h ! a = Some xs \<Longrightarrow> i < length xs \<Longrightarrow> j < length xs \<Longrightarrow>
   move_assign_elem T h (Some a) i (Some a) j =
     Inr (h[a := Some (xs[i := xs ! j, j := moved_from T (xs ! j)])])"
  by (simp add: move_assign_elem_def load_live store_live)

lemma take_Suc_update: "k < length xs \<Longrightarrow> take (Suc k) (xs[k := y]) = take k xs @ [y]"
  by (simp add: take_Suc_conv_app_nth)

lemma take_Suc_drop: "k < length xs \<Longrightarrow> take (Suc n) (drop k xs) = xs ! k # take n (drop (Suc k) xs)"
  by (simp add: Cons_nth_drop_Suc [symmetric])

lemma update_pair_left:
  "Suc k < length xs \<Longrightarrow> xs[k := y, Suc k := z] = take k xs @ [y, z] @ drop (k + 2) xs"
proof -
  assume k: "Suc k < length xs"
  have "xs[k := y, Suc k := z] = take (Suc k) (xs[k := y]) @ z # drop (Suc (Suc k)) (xs[k := y])"
    using k by (simp add: upd_conv_take_nth_drop)
  also have "\<dots> = take k xs @ [y, z] @ drop (k + 2) xs"
    using k by (simp add: take_Suc_update)
  finally show ?thesis .
qed

lemma move_n_left:
  "a < length h \<Longrightarrow> h ! a = Some xs \<Longrightarrow> k + Suc n < length xs \<Longrightarrow>
   move_n T h (Some a) (Suc k) (Suc n) (Some a) k =
     Inr (h[a := Some (take k xs @ take (Suc n) (drop (Suc k) xs)
                       @ [moved_from T (xs ! (k + Suc n))] @ drop (k + n + 2) xs)])"
proof (induction n arbitrary: h xs k)
  case 0
  then show ?case by (simp add: move_elem_same update_pair_left take_Suc_drop)
next
  case (Suc n)
  let ?y = "xs ! Suc k"
  let ?xs1 = "xs[k := ?y, Suc k := moved_from T ?y]"
  let ?h1 = "h[a := Some ?xs1]"
  have k: "k < length xs" "Suc k < length xs" using Suc.prems by simp_all
  have "move_n T h (Some a) (Suc k) (Suc (Suc n)) (Some a) k =
        move_n T ?h1 (Some a) (Suc (Suc k)) (Suc n) (Some a) (Suc k)"
    using Suc.prems by (simp add: move_elem_same)
  also have "\<dots> = Inr (?h1[a := Some (take (Suc k) ?xs1 @ take (Suc n) (drop (Suc (Suc k)) ?xs1)
                       @ [moved_from T (?xs1 ! (Suc k + Suc n))] @ drop (Suc k + n + 2) ?xs1)])"
    using Suc.prems by (intro Suc.IH) simp_all
  also have "take (Suc k) ?xs1 = take k xs @ [?y]"
    using k by (simp add: take_Suc_update)
  also have "drop (Suc (Suc k)) ?xs1 = drop (Suc (Suc k)) xs" by simp
  also have "?xs1 ! (Suc k + Suc n) = xs ! (Suc k + Suc n)" by simp
  also have "drop (Suc k + n + 2) ?xs1 = drop (Suc k + n + 2) xs" by simp
  finally have "move_n T h (Some a) (Suc k) (Suc (Suc n)) (Some a) k =
     Inr (?h1[a := Some ((take k xs @ [?y]) @ take (Suc n) (drop (Suc (Suc k)) xs)
                       @ [moved_from T (xs ! (Suc k + Suc n))] @ drop (Suc k + n + 2) xs)])" .
  moreover have "take (Suc (Suc n)) (drop (Suc k) xs) = ?y # take (Suc n) (drop (Suc (Suc k)) xs)"
    using k by (rule_tac take_Suc_drop) simp
  ultimately show ?case by simp
qed

lemma update_pair_right:
  "Suc k < length xs \<Longrightarrow> xs[Suc k := z, k := y] = take k xs @ [y, z] @ drop (k + 2) xs"
  using update_pair_left [of k xs y z] by (simp add: list_update_swap)

lemma move_backward_n_right:
  "a < length h \<Longrightarrow> h ! a = Some xs \<Longrightarrow> k + Suc n < length xs \<Longrightarrow>
   move_backward_n T h (Some a) (k + Suc n) (Suc n) (Some a) (Suc (k + Suc n)) =
     Inr (h[a := Some (take k xs @ [moved_from T (xs ! k)] @ take (Suc n) (drop k xs)
                       @ drop (k + n + 2) xs)])"
proof (induction n arbitrary: h xs)
  case 0
  then show ?case by (simp add: move_elem_same update_pair_right take_Suc_drop)
next
  case (Suc n)
  let ?s = "k + Suc n"
  let ?y = "xs ! ?s"
  let ?xs1 = "xs[Suc ?s := ?y, ?s := moved_from T ?y]"
  let ?h1 = "h[a := Some ?xs1]"
  have s: "?s < length xs" "Suc ?s < length xs" using Suc.prems by simp_all
  have "move_backward_n T h (Some a) (k + Suc (Suc n)) (Suc (Suc n)) (Some a) (Suc (k + Suc (Suc n))) =
        move_backward_n T ?h1 (Some a) (k + Suc n) (Suc n) (Some a) (Suc (k + Suc n))"
    using Suc.prems by (simp add: move_elem_same)
  also have "\<dots> = Inr (?h1[a := Some (take k ?xs1 @ [moved_from T (?xs1 ! k)] @ take (Suc n) (drop k ?xs1)
                       @ drop (k + n + 2) ?xs1)])"
    using Suc.prems by (intro Suc.IH) simp_all
  also have "take k ?xs1 = take k xs" by simp
  also have "?xs1 ! k = xs ! k" by simp
  also have "take (Suc n) (drop k ?xs1) = take (Suc n) (drop k xs)"
    by (simp add: drop_update_swap take_update_cancel)
  also have "drop (k + n + 2) ?xs1 = [?y] @ drop (k + Suc n + 2) xs"
  proof -
    have "drop (k + n + 2) ?xs1 = drop (Suc ?s) (xs[Suc ?s := ?y])" by simp
    also have "\<dots> = (drop (Suc ?s) xs)[0 := ?y]" by (simp add: drop_update_swap)
    also have "drop (Suc ?s) xs = xs ! Suc ?s # drop (Suc (Suc ?s)) xs"
      using s by (simp add: Cons_nth_drop_Suc)
    finally show ?thesis by simp
  qed
  finally have "move_backward_n T h (Some a) (k + Suc (Suc n)) (Suc (Suc n)) (Some a) (Suc (k + Suc (Suc n))) =
     Inr (?h1[a := Some (take k xs @ [moved_from T (xs ! k)] @ take (Suc n) (drop k xs)
                       @ [?y] @ drop (k + Suc n + 2) xs)])" .
  moreover have "take (Suc (Suc n)) (drop k xs) = take (Suc n) (drop k xs) @ [?y]"
    using s by (simp add: take_Suc_conv_app_nth [of "Suc n" "drop k xs"])
  ultimately show ?case by simp
qed

lemmas ptr_simps = Get_def ptr_add_def valid_range_def begin_it_def end_it_def ptr_diff_def

lemma wf_vector_cases [consumes 1, case_names null live]:
  assumes "wf_vector h v"
  obtains "m_data v = None" "m_capacity v = 0" "m_size v = 0"
  | a xs where "m_data v = Some a" "a < length h" "h ! a = Some xs" "length xs = m_capacity v"
      "0 < m_capacity v" "m_size v \<le> m_capacity v" "m_capacity v \<le> PTRDIFF_MAX"
      "block h (m_data v) = xs"
proof (cases "m_data v")
  case None
  then show ?thesis using assms that(1) by (simp add: wf_vector_def owns_def)
next
  case (Some a)
  then show ?thesis using assms that(2) [of a]
    by (auto simp: wf_vector_def owns_def block_def split: option.splits)
qed

lemma PTRDIFF_MAX_less: "n \<le> PTRDIFF_MAX \<Longrightarrow> n < 2 ^ 63"
  by (simp add: PTRDIFF_MAX_def)

lemma size_t_small: "n < 2 ^ 64 \<Longrightarrow> size_t n = n"
  by (simp add: size_t_def)

lemma size_t_double: "n \<le> PTRDIFF_MAX \<Longrightarrow> size_t (n * 2) = 2 * n"
  by (simp add: size_t_def PTRDIFF_MAX_def)

lemma size_t_inc: "n \<le> PTRDIFF_MAX \<Longrightarrow> size_t (n + 1) = n + 1"
  by (simp add: size_t_def PTRDIFF_MAX_def)

lemma size_t_dec: "0 < n \<Longrightarrow> n \<le> PTRDIFF_MAX \<Longrightarrow> size_t (n + 2 ^ 64 - 1) = n - 1"
proof -
  assume n: "0 < n" "n \<le> PTRDIFF_MAX"
  have "n + 2 ^ 64 - 1 = (n - 1) + (2::nat) ^ 64" using n by simp
  then have "size_t (n + 2 ^ 64 - 1) = (n - 1) mod 2 ^ 64"
    by (simp only: size_t_def mod_add_self2)
  moreover have "n - 1 < 2 ^ 64" using n by (simp add: PTRDIFF_MAX_def)
  ultimately show ?thesis by simp
qed

lemma ArrayPtr_size_ok:
  "0 < n \<Longrightarrow> n \<le> PTRDIFF_MAX \<Longrightarrow>
   ArrayPtr_size T h n = Inr (h @ [Some (replicate n (default_init T))], Some (length h))"
  by (simp add: ArrayPtr_size_def new_array_def)

lemma ArrayPtr_size_fail: "PTRDIFF_MAX < n \<Longrightarrow> ArrayPtr_size T h n = Inl BadAlloc"
  by (auto simp: ArrayPtr_size_def new_array_def)

lemma ArrayPtr_size_0: "ArrayPtr_size T h 0 = Inr (h, None)"
  by (simp add: ArrayPtr_size_def)

lemma destroy_live:
  "a < length h \<Longrightarrow> h ! a = Some xs \<Longrightarrow> ArrayPtr_destroy h (Some a) = Inr (h[a := None])"
  by (simp add: ArrayPtr_destroy_def delete_array_def)

lemma destroy_null: "ArrayPtr_destroy h None = Inr h"
  by (simp add: ArrayPtr_destroy_def delete_array_def)

text \<open>Moving the first k elements of a vector's buffer into a block just allocated.\<close>

lemma relocate_live:
  assumes "a < length h" "h ! a = Some xs" "k \<le> length xs" "k \<le> length ys"
  shows "std_move T (h @ [Some ys]) (Get (Some a)) (ptr_add (Get (Some a)) k) (Get (Some (length h))) =
           Inr (h[a := Some (map (moved_from T) (take k xs) @ drop k xs)] @ [Some (take k xs @ drop k ys)])"
proof -
  let ?H = "h @ [Some ys]"
  have "move_n T ?H (Some a) 0 k (Some (length h)) 0 =
     Inr (?H[length h := Some (take 0 ys @ take k (drop 0 xs) @ drop (0 + k) ys),
            a := Some (take 0 xs @ map (moved_from T) (take k (drop 0 xs)) @ drop (0 + k) xs)])"
    using assms by (intro move_n_live) (simp_all add: nth_append)
  then show ?thesis using assms by (simp add: std_move_def ptr_simps list_update_append1)
qed

lemma Reserve_live:
  assumes "m_data v = Some a" "a < length h" "h ! a = Some xs" "length xs = m_capacity v"
    "m_size v \<le> m_capacity v" "m_capacity v < n" "n \<le> PTRDIFF_MAX"
  shows "Reserve T h v n =
     Inr (h[a := None] @ [Some (take (m_size v) xs @ replicate (n - m_size v) (default_init T))],
          \<lparr>m_size = m_size v, m_capacity = n, m_data = Some (length h)\<rparr>)"
proof -
  let ?ys = "replicate n (default_init T)"
  have "std_move T (h @ [Some ?ys]) (Get (Some a)) (ptr_add (Get (Some a)) (m_size v)) (Get (Some (length h))) =
           Inr (h[a := Some (map (moved_from T) (take (m_size v) xs) @ drop (m_size v) xs)] @ [Some (take (m_size v) xs @ drop (m_size v) ?ys)])"
    using assms by (intro relocate_live) simp_all
  then show ?thesis using assms
    by (simp add: Reserve_def ArrayPtr_size_ok ArrayPtr_swap_def destroy_live nth_append list_update_append1)
qed

lemma Reserve_null:
  assumes "m_data v = None" "m_size v = 0" "m_capacity v < n" "n \<le> PTRDIFF_MAX"
  shows "Reserve T h v n =
     Inr (h @ [Some (replicate n (default_init T))],
          \<lparr>m_size = 0, m_capacity = n, m_data = Some (length h)\<rparr>)"
  using assms
  by (simp add: Reserve_def ArrayPtr_size_ok ArrayPtr_swap_def destroy_null std_move_def ptr_simps)

lemma Reserve_wf:
  assumes "wf_vector h v" "m_capacity v < n" "n \<le> PTRDIFF_MAX"
  shows "Reserve T h v n =
     Inr (released h (m_data v) @ [Some (elems h v @ replicate (n - m_size v) (default_init T))],
          \<lparr>m_size = m_size v, m_capacity = n, m_data = Some (length h)\<rparr>)"
  using assms(1)
proof (cases rule: wf_vector_cases)
  case null
  then show ?thesis using assms Reserve_null [of v n T h] by (simp add: released_def elems_def)
next
  case (live a xs)
  then show ?thesis using assms Reserve_live [of v a h xs n T] by (simp add: released_def elems_def)
qed

lemma wf_world_nth:
  "wf_world w \<Longrightarrow> i < length (objects w) \<Longrightarrow> wf_vector (free_store w) (objects w ! i)"
  by (simp add: wf_world_def list_all_length)

lemma At_in_range:
  assumes "wf_vector h v" "i < m_size v"
  shows "At h v i = Inr (elems h v ! i)"
  using assms(1)
proof (cases rule: wf_vector_cases)
  case null
  then show ?thesis using assms by simp
next
  case (live a xs)
  then show ?thesis using assms by (simp add: At_def load_live elems_def)
qed

lemma At_out_of_range_iff: "At h v i = Inl OutOfRange \<longleftrightarrow> m_size v \<le> i"
  by (auto simp: At_def load_def split: option.splits)

section \<open>\<open>Clear\<close> and \<open>At\<close>\<close>

text \<open>
  C9. \<open>Clear\<close> sets the size to 0 and leaves the capacity and the buffer as they were:
  the object keeps its capacity and its block, and the call does not touch the free store.
\<close>

theorem Clear_keeps_capacity:
  "m_size (Clear v) = 0 \<and> m_capacity (Clear v) = m_capacity v \<and> m_data (Clear v) = m_data v
   \<and> block h (m_data (Clear v)) = block h (m_data v)
   \<and> member_call var T w (Call_Clear this) =
       Inr (\<lparr>free_store = free_store w, objects = (objects w)[this := Clear (objects w ! this)]\<rparr>,
            Done)"
  by (simp add: Clear_def updated_def)

text \<open>
  C6. \<open>At(i)\<close> raises the out-of-range error exactly when \<open>i \<ge> size\<close>; for \<open>i < size\<close> it
  returns the i-th element of the sequence; a failing call returns the error to the
  caller and leaves the program state (every size, capacity and element) as it was.
\<close>

theorem At_checked:
  assumes "wf_world w" and "this < length (objects w)"
  shows "(At (free_store w) (objects w ! this) i = Inl OutOfRange
            \<longleftrightarrow> m_size (objects w ! this) \<le> i)
       \<and> (i < m_size (objects w ! this) \<longrightarrow>
            At (free_store w) (objects w ! this) i
              = Inr (elems (free_store w) (objects w ! this) ! i))
       \<and> (m_size (objects w ! this) \<le> i \<longrightarrow>
            run var T w [Call_At this i] = (w, [Inl OutOfRange]))"
proof -
  have wf: "wf_vector (free_store w) (objects w ! this)"
    using assms by (rule wf_world_nth)
  have "m_size (objects w ! this) \<le> i \<Longrightarrow> run var T w [Call_At this i] = (w, [Inl OutOfRange])"
    using assms(2) by (simp add: step_def At_def recoverable_def)
  then show ?thesis using wf by (simp add: At_out_of_range_iff At_in_range)
qed

theorem At_checked_witness:
  "wf_world example_world \<and> 0 < length (objects example_world)
   \<and> At (free_store example_world) (objects example_world ! 0) 1 = Inr 20
   \<and> At (free_store example_world) (objects example_world ! 0) 3 = Inl OutOfRange
   \<and> run Header int_Type example_world [Call_At 0 3] = (example_world, [Inl OutOfRange])"
proof -
  have wf: "wf_world example_world"
    by (simp add: wf_world_def wf_vector_def owns_def separate_def example_world_def
        PTRDIFF_MAX_def List.map_filter_simps)
  have len: "0 < length (objects example_world)"
    by (simp add: example_world_def)
  show ?thesis
    using wf len At_checked [OF wf len, of 1 Header int_Type] At_checked [OF wf len, of 3 Header int_Type]
    by (simp add: example_world_def elems_def block_def)
qed

section \<open>PushBack\<close>

lemma store_last:
  "length h = b \<Longrightarrow> i < length ys \<Longrightarrow>
   store (h @ [Some ys]) (Some b) i x = Inr (h @ [Some (ys[i := x])])"
  by (auto simp: store_def)

lemma size_t_Suc: "n \<le> PTRDIFF_MAX \<Longrightarrow> size_t (Suc n) = Suc n"
  using size_t_inc [of n] by simp

lemma destroy_last_live:
  "a < length h \<Longrightarrow> h ! a = Some xs \<Longrightarrow>
   ArrayPtr_destroy (h @ [B]) (Some a) = Inr (h[a := None] @ [B])"
  by (simp add: ArrayPtr_destroy_def delete_array_def nth_append list_update_append1)

lemma std_move_empty: "std_move T h (p, i) (p, i) d = Inr h"
  by (simp add: std_move_def valid_range_def)

lemma wf_vector_size_t:
  assumes "wf_vector h v"
  shows "size_t (m_capacity v * 2) = 2 * m_capacity v"
  using assms by (simp add: wf_vector_def size_t_double)

lemma PushBack_null:
  assumes "m_data v = None" "m_capacity v = 0" "m_size v = 0"
  shows "PushBack T h v x =
     Inr (h @ [Some [x]], \<lparr>m_size = 1, m_capacity = 1, m_data = Some (length h)\<rparr>)"
  using assms
  by (simp add: PushBack_def ArrayPtr_size_ok PTRDIFF_MAX_def ptr_simps std_move_empty store_last
      ArrayPtr_swap_def destroy_null size_t_def)

lemma PushBack_full:
  assumes "m_data v = Some a" "a < length h" "h ! a = Some xs" "length xs = m_capacity v"
    "m_size v = m_capacity v" "0 < m_capacity v" "2 * m_capacity v \<le> PTRDIFF_MAX"
  shows "PushBack T h v x =
     Inr (h[a := None] @ [Some (xs @ [x] @ replicate (m_capacity v - 1) (default_init T))],
          \<lparr>m_size = m_size v + 1, m_capacity = 2 * m_capacity v, m_data = Some (length h)\<rparr>)"
proof -
  let ?c = "m_capacity v"
  let ?ys = "replicate (2 * ?c) (default_init T)"
  have c: "?c \<le> PTRDIFF_MAX" using assms by simp
  have mv: "std_move T (h @ [Some ?ys]) (Get (Some a)) (ptr_add (Get (Some a)) ?c) (Get (Some (length h))) =
           Inr (h[a := Some (map (moved_from T) (take ?c xs) @ drop ?c xs)] @ [Some (take ?c xs @ drop ?c ?ys)])"
    using assms by (intro relocate_live) simp_all
  have upd: "(xs @ replicate ?c (default_init T))[?c := x] = xs @ [x] @ replicate (?c - 1) (default_init T)"
    using assms by (cases ?c) (simp_all add: list_update_append)
  show ?thesis
    using assms c mv upd
    by (simp add: PushBack_def size_t_double size_t_Suc ArrayPtr_size_ok store_last
        ArrayPtr_swap_def destroy_last_live)
qed

lemma PushBack_room:
  assumes "m_data v = Some a" "a < length h" "h ! a = Some xs" "length xs = m_capacity v"
    "m_size v < m_capacity v" "m_capacity v \<le> PTRDIFF_MAX"
  shows "PushBack T h v x =
     Inr (h[a := Some (xs[m_size v := x])], v\<lparr>m_size := m_size v + 1\<rparr>)"
  using assms by (simp add: PushBack_def store_live size_t_Suc)

lemma PushBack_fail:
  assumes "wf_vector h v" "m_size v = m_capacity v" "PTRDIFF_MAX < 2 * m_capacity v"
  shows "PushBack T h v x = Inl BadAlloc"
proof -
  have "m_capacity v \<noteq> 0" using assms by auto
  then show ?thesis using assms
    by (simp add: PushBack_def wf_vector_size_t ArrayPtr_size_fail)
qed

lemma PushBack_move_PushBack:
  "PushBack_move T h v x = and_then (PushBack T h v x) (\<lambda>(h', v'). Inr (h', v', moved_from T x))"
  by (simp add: PushBack_move_def PushBack_def and_then_def Let_def split: sum.splits prod.splits)



section \<open>Insert\<close>

lemma relocate_range:
  assumes "a < length h" "h ! a = Some xs" "b = length h" "i \<le> l" "l \<le> length xs"
    "j + (l - i) \<le> length ys"
  shows "std_move T (h @ [Some ys]) (Some a, i) (Some a, l) (Some b, j) =
           Inr (h[a := Some (take i xs @ map (moved_from T) (take (l - i) (drop i xs)) @ drop l xs)]
                @ [Some (take j ys @ take (l - i) (drop i xs) @ drop (j + (l - i)) ys)])"
proof -
  let ?H = "h @ [Some ys]"
  have "move_n T ?H (Some a) i (l - i) (Some (length h)) j =
     Inr (?H[length h := Some (take j ys @ take (l - i) (drop i xs) @ drop (j + (l - i)) ys),
            a := Some (take i xs @ map (moved_from T) (take (l - i) (drop i xs)) @ drop (i + (l - i)) xs)])"
    using assms by (intro move_n_live) (simp_all add: nth_append)
  then show ?thesis using assms by (simp add: std_move_def ptr_simps list_update_append1)
qed

lemma shift_right_then_store:
  assumes "a < length h" "h ! a = Some ys" "k \<le> s" "s < length ys"
  shows "and_then (std_move_backward T h (Some a, k) (Some a, s) (Some a, Suc s))
           (\<lambda>h1. and_then (store h1 (Some a) k x) f) =
         f (h[a := Some (take k ys @ [x] @ take (s - k) (drop k ys) @ drop (Suc s) ys)])"
proof (cases "k = s")
  case True
  then show ?thesis using assms
    by (simp add: std_move_backward_def valid_range_def store_live upd_conv_take_nth_drop)
next
  case False
  then obtain n where s: "s = k + Suc n"
    using assms(3) by (metis add_Suc_right less_imp_Suc_add order_neq_le_trans)
  let ?L = "take k ys @ [moved_from T (ys ! k)] @ take (Suc n) (drop k ys) @ drop (k + n + 2) ys"
  have "move_backward_n T h (Some a) (k + Suc n) (Suc n) (Some a) (Suc (k + Suc n)) =
          Inr (h[a := Some ?L])"
    using assms s by (intro move_backward_n_right) simp_all
  moreover have "?L[k := x] = take k ys @ [x] @ take (Suc n) (drop k ys) @ drop (k + n + 2) ys"
    using assms s by (simp add: list_update_append)
  moreover have "k < length ?L" using assms s by simp
  ultimately show ?thesis using assms s
    by (simp add: std_move_backward_def valid_range_def store_live del: take_Suc_Cons)
qed

lemma InsertImpl_null:
  assumes "m_data v = None" "m_capacity v = 0" "m_size v = 0"
  shows "InsertImpl T h v (ptr_add (begin_it v) 0) x =
     Inr (h @ [Some [x]], \<lparr>m_size = 1, m_capacity = 1, m_data = Some (length h)\<rparr>,
          (Some (length h), 0))"
  using assms
  by (simp add: InsertImpl_def ArrayPtr_size_ok PTRDIFF_MAX_def ptr_simps std_move_empty store_last
      ArrayPtr_swap_def destroy_null size_t_def)

lemma InsertImpl_full:
  assumes "m_data v = Some a" "a < length h" "h ! a = Some xs" "length xs = m_capacity v"
    "m_size v = m_capacity v" "0 < m_capacity v" "2 * m_capacity v \<le> PTRDIFF_MAX"
    "k \<le> m_size v"
  shows "InsertImpl T h v (ptr_add (begin_it v) k) x =
     Inr (h[a := None]
            @ [Some (take k xs @ [x] @ drop k xs @ replicate (m_capacity v - 1) (default_init T))],
          \<lparr>m_size = m_size v + 1, m_capacity = 2 * m_capacity v, m_data = Some (length h)\<rparr>,
          (Some (length h), k))"
proof -
  let ?c = "m_capacity v"
  let ?d = "default_init T"
  let ?ys = "replicate (2 * ?c) ?d"
  let ?X2 = "map (moved_from T) (take k xs) @ drop k xs"
  let ?Y3 = "take k xs @ [x] @ replicate (2 * ?c - Suc k) ?d"
  have c: "?c \<le> PTRDIFF_MAX" using assms by simp
  have m1: "std_move T (h @ [Some ?ys]) (Some a, 0) (Some a, k) (Some (length h), 0) =
           Inr (h[a := Some ?X2] @ [Some (take k xs @ replicate (2 * ?c - k) ?d)])"
    using assms relocate_range [of a h xs "length h" 0 k 0 ?ys T] by simp
  have st: "(take k xs @ replicate (2 * ?c - k) ?d)[k := x] = ?Y3"
  proof -
    have "replicate (2 * ?c - k) ?d = ?d # replicate (2 * ?c - Suc k) ?d"
      using assms by (cases "2 * ?c - k") simp_all
    then show ?thesis using assms by (simp add: list_update_append)
  qed
  have "std_move T (h[a := Some ?X2] @ [Some ?Y3]) (Some a, k) (Some a, ?c) (Some (length h), Suc k) =
           Inr ((h[a := Some ?X2])[a := Some (take k ?X2 @ map (moved_from T) (take (?c - k) (drop k ?X2)) @ drop ?c ?X2)]
                @ [Some (take (Suc k) ?Y3 @ take (?c - k) (drop k ?X2) @ drop (Suc k + (?c - k)) ?Y3)])"
    using assms by (intro relocate_range) simp_all
  moreover have "take (Suc k) ?Y3 @ take (?c - k) (drop k ?X2) @ drop (Suc k + (?c - k)) ?Y3
           = take k xs @ [x] @ drop k xs @ replicate (?c - 1) ?d"
    using assms by (simp add: Suc_diff_le)
  ultimately obtain Z where m2:
    "std_move T (h[a := Some ?X2] @ [Some ?Y3]) (Some a, k) (Some a, ?c) (Some (length h), Suc k) =
       Inr (h[a := Some Z] @ [Some (take k xs @ [x] @ drop k xs @ replicate (?c - 1) ?d)])"
    by simp
  show ?thesis
    using assms c m1 st m2
    by (simp add: InsertImpl_def Let_def size_t_double size_t_Suc ArrayPtr_size_ok ptr_simps
        store_last ArrayPtr_swap_def destroy_last_live del: replicate_Suc)
qed

lemma InsertImpl_room:
  assumes "m_data v = Some a" "a < length h" "h ! a = Some xs" "length xs = m_capacity v"
    "m_size v < m_capacity v" "m_capacity v \<le> PTRDIFF_MAX" "k \<le> m_size v"
  shows "InsertImpl T h v (ptr_add (begin_it v) k) x =
     Inr (h[a := Some (take k xs @ [x] @ take (m_size v - k) (drop k xs) @ drop (Suc (m_size v)) xs)],
          v\<lparr>m_size := m_size v + 1\<rparr>, (Some a, k))"
proof -
  note sr = shift_right_then_store [OF assms(2) assms(3), of k "m_size v"]
  show ?thesis using assms
    by (simp add: InsertImpl_def ptr_simps size_t_Suc sr)
qed

lemma InsertImpl_fail:
  assumes "wf_vector h v" "m_size v = m_capacity v" "PTRDIFF_MAX < 2 * m_capacity v"
  shows "InsertImpl T h v (ptr_add (begin_it v) k) x = Inl BadAlloc"
proof -
  have "m_capacity v \<noteq> 0" using assms by auto
  then show ?thesis using assms
    by (simp add: InsertImpl_def ptr_simps wf_vector_size_t ArrayPtr_size_fail)
qed



section \<open>Erase\<close>

lemma PushBack_sound:
  assumes "wf_vector h v" "PushBack T h v x = Inr (h', v')"
  shows "wf_vector h' v' \<and> touches_only h (m_data v) h' (m_data v')"
  using assms(1)
proof (cases rule: wf_vector_cases)
  case null
  then show ?thesis using assms(2)
    by (auto simp: PushBack_null wf_vector_def owns_def touches_only_def nth_append PTRDIFF_MAX_def)
next
  case (live a xs)
  show ?thesis
  proof (cases "m_size v = m_capacity v")
    case full: True
    show ?thesis
    proof (cases "2 * m_capacity v \<le> PTRDIFF_MAX")
      case True
      then show ?thesis using live full assms(2)
        by (auto simp: PushBack_full wf_vector_def owns_def touches_only_def nth_append)
    next
      case False
      then show ?thesis using full assms by (simp add: PushBack_fail)
    qed
  next
    case False
    then have "m_size v < m_capacity v" using live by simp
    then show ?thesis using live assms(2)
      by (auto simp: PushBack_room wf_vector_def owns_def touches_only_def)
  qed
qed

lemma InsertImpl_sound_valid:
  assumes "wf_vector h v" "k \<le> m_size v"
    "InsertImpl T h v (ptr_add (begin_it v) k) x = Inr (h', v', it)"
  shows "wf_vector h' v' \<and> touches_only h (m_data v) h' (m_data v')"
  using assms(1)
proof (cases rule: wf_vector_cases)
  case null
  then show ?thesis using assms(2,3) InsertImpl_null [of v T h x]
    by (auto simp: wf_vector_def owns_def touches_only_def nth_append PTRDIFF_MAX_def)
next
  case (live a xs)
  show ?thesis
  proof (cases "m_size v = m_capacity v")
    case full: True
    show ?thesis
    proof (cases "2 * m_capacity v \<le> PTRDIFF_MAX")
      case True
      then show ?thesis using live full assms(2,3) InsertImpl_full [of v a h xs k T x]
        by (auto simp: wf_vector_def owns_def touches_only_def nth_append)
    next
      case False
      then show ?thesis using full assms InsertImpl_fail [of h v T k x] by simp
    qed
  next
    case False
    then have "m_size v < m_capacity v" using live by simp
    then show ?thesis using live assms(2,3) InsertImpl_room [of v a h xs k T x]
      by (auto simp: wf_vector_def owns_def touches_only_def)
  qed
qed

lemma std_move_left:
  assumes "a < length h" "h ! a = Some xs" "k < s" "s \<le> length xs"
  shows "std_move T h (Some a, Suc k) (Some a, s) (Some a, k) =
     Inr (h[a := Some (take k xs @ take (s - Suc k) (drop (Suc k) xs)
                       @ [if Suc k = s then xs ! k else moved_from T (xs ! (s - 1))] @ drop s xs)])"
proof (cases "Suc k = s")
  case True
  have kl: "k < length xs" using assms by simp
  have "take k xs @ [xs ! k] @ drop (Suc k) xs = xs"
    using id_take_nth_drop [OF kl] by simp
  moreover have "h[a := Some xs] = h"
    using assms by (metis list_update_id)
  ultimately show ?thesis using True assms
    by (simp add: std_move_def valid_range_def)
next
  case False
  then obtain n where s: "s = Suc k + Suc n"
    using assms(3) by (metis Suc_lessI add_Suc_right less_imp_Suc_add)
  have "move_n T h (Some a) (Suc k) (Suc n) (Some a) k =
     Inr (h[a := Some (take k xs @ take (Suc n) (drop (Suc k) xs)
                       @ [moved_from T (xs ! (k + Suc n))] @ drop (k + n + 2) xs)])"
    using assms s by (intro move_n_left) simp_all
  then show ?thesis using s assms
    by (simp add: std_move_def valid_range_def del: take_Suc_Cons)
qed

lemma Erase_live:
  assumes "m_data v = Some a" "a < length h" "h ! a = Some xs" "length xs = m_capacity v"
    "m_size v \<le> m_capacity v" "m_capacity v \<le> PTRDIFF_MAX" "k < m_size v"
  shows "Erase T h v (ptr_add (begin_it v) k) =
     Inr (h[a := Some (take k xs @ take (m_size v - Suc k) (drop (Suc k) xs)
                       @ [if Suc k = m_size v then xs ! k else moved_from T (xs ! (m_size v - 1))]
                       @ drop (m_size v) xs)],
          v\<lparr>m_size := m_size v - 1\<rparr>, (Some a, k))"
proof -
  have "size_t (m_size v + 2 ^ 64 - 1) = m_size v - 1"
    using assms by (intro size_t_dec) simp_all
  then show ?thesis
    using assms std_move_left [of a h xs k "m_size v" T]
    by (simp add: Erase_def ptr_simps)
qed

lemma Erase_wf:
  assumes "wf_vector h v" "k < m_size v"
  shows "case Erase T h v (ptr_add (begin_it v) k) of
           Inr (h', v', it) \<Rightarrow>
             m_size v' = m_size v - 1 \<and> m_capacity v' = m_capacity v
             \<and> elems h' v' = take k (elems h v) @ drop (Suc k) (elems h v)
             \<and> it = ptr_add (begin_it v') k
             \<and> wf_vector h' v' \<and> touches_only h (m_data v) h' (m_data v')
         | Inl e \<Rightarrow> False"
  using assms(1)
proof (cases rule: wf_vector_cases)
  case null
  then show ?thesis using assms by simp
next
  case (live a xs)
  have "take (m_size v - 1) (take k xs @ take (m_size v - Suc k) (drop (Suc k) xs)
                       @ [if Suc k = m_size v then xs ! k else moved_from T (xs ! (m_size v - 1))]
                       @ drop (m_size v) xs)
        = take k xs @ drop (Suc k) (take (m_size v) xs)"
    using live assms(2) by (simp add: drop_take)
  then show ?thesis
    using live assms Erase_live [of v a h xs k T]
    by (simp add: elems_def block_def wf_vector_def owns_def touches_only_def ptr_simps)
qed

lemma InsertImpl_effect:
  assumes "wf_vector h v" "k \<le> m_size v"
  shows "case InsertImpl T h v (ptr_add (begin_it v) k) x of
           Inr (h', v', it) \<Rightarrow>
             m_size v' = m_size v + 1
             \<and> elems h' v' = take k (elems h v) @ [x] @ drop k (elems h v)
             \<and> it = ptr_add (begin_it v') k
             \<and> wf_vector h' v' \<and> touches_only h (m_data v) h' (m_data v')
         | Inl e \<Rightarrow> e = BadAlloc \<and> m_size v = m_capacity v \<and> PTRDIFF_MAX < 2 * m_capacity v"
proof (cases "InsertImpl T h v (ptr_add (begin_it v) k) x")
  case (Inl e)
  from assms(1) show ?thesis
  proof (cases rule: wf_vector_cases)
    case null
    then show ?thesis using Inl assms(2) InsertImpl_null [of v T h x] by simp
  next
    case (live a xs)
    show ?thesis
    proof (cases "m_size v = m_capacity v")
      case full: True
      show ?thesis
      proof (cases "2 * m_capacity v \<le> PTRDIFF_MAX")
        case True
        then show ?thesis using Inl live full assms(2) InsertImpl_full [of v a h xs k T x]
          by simp
      next
        case False
        then show ?thesis using Inl full assms InsertImpl_fail [of h v T k x] by simp
      qed
    next
      case False
      then have "m_size v < m_capacity v" using live by simp
      then show ?thesis using Inl live assms(2) InsertImpl_room [of v a h xs k T x]
        by simp
    qed
  qed
next
  case (Inr r)
  obtain h' v' it where r: "r = (h', v', it)" by (cases r) auto
  have snd: "wf_vector h' v' \<and> touches_only h (m_data v) h' (m_data v')"
    using assms Inr r by (intro InsertImpl_sound_valid [of h v k T x h' v' it]) simp_all
  have "m_size v' = m_size v + 1
             \<and> elems h' v' = take k (elems h v) @ [x] @ drop k (elems h v)
             \<and> it = ptr_add (begin_it v') k"
    using assms(1)
  proof (cases rule: wf_vector_cases)
    case null
    then show ?thesis using Inr r assms(2) InsertImpl_null [of v T h x]
      by (auto simp: elems_def block_def ptr_simps)
  next
    case (live a xs)
    show ?thesis
    proof (cases "m_size v = m_capacity v")
      case full: True
      show ?thesis
      proof (cases "2 * m_capacity v \<le> PTRDIFF_MAX")
        case True
        then show ?thesis using Inr r live full assms(2) InsertImpl_full [of v a h xs k T x]
          by (simp add: elems_def block_def nth_append ptr_simps Suc_diff_le)
      next
        case False
        then show ?thesis using Inr full assms InsertImpl_fail [of h v T k x] by simp
      qed
    next
      case False
      then have "m_size v < m_capacity v" using live by simp
      then show ?thesis using Inr r live assms(2) InsertImpl_room [of v a h xs k T x]
        by (simp add: elems_def block_def nth_append ptr_simps drop_take Suc_diff_le)
    qed
  qed
  then show ?thesis using snd Inr r by simp
qed

text \<open>
  C4. \<open>Erase\<close> at the position \<open>Insert\<close> returned (which is \<open>begin + k\<close> of the vector after
  the insertion) gives back the element sequence and the size from before the insertion.
\<close>

theorem Erase_undoes_Insert:
  assumes "wf_vector h v" and "k \<le> m_size v"
  shows "case Insert T h v (ptr_add (begin_it v) k) x of
           Inr (h1, v1, it) \<Rightarrow>
             it = ptr_add (begin_it v1) k
             \<and> (case Erase T h1 v1 it of
                   Inr (h2, v2, it2) \<Rightarrow> elems h2 v2 = elems h v \<and> m_size v2 = m_size v
                 | Inl e \<Rightarrow> False)
         | Inl e \<Rightarrow> e = BadAlloc \<and> m_size v = m_capacity v \<and> PTRDIFF_MAX < 2 * m_capacity v"
proof (cases "InsertImpl T h v (ptr_add (begin_it v) k) x")
  case (Inl e)
  then show ?thesis using InsertImpl_effect [OF assms, where T = T and x = x] by (simp add: Insert_def)
next
  case (Inr r)
  obtain h1 v1 it where r: "r = (h1, v1, it)" by (cases r) auto
  have ins: "m_size v1 = m_size v + 1"
    "elems h1 v1 = take k (elems h v) @ [x] @ drop k (elems h v)"
    "it = ptr_add (begin_it v1) k" "wf_vector h1 v1"
    using InsertImpl_effect [OF assms, where T = T and x = x] Inr r by simp_all
  have k: "k < m_size v1" using ins assms by simp
  have len: "k \<le> length (elems h v)"
    using assms by (cases rule: wf_vector_cases) (simp_all add: elems_def)
  have "take k (elems h1 v1) @ drop (Suc k) (elems h1 v1) = elems h v"
    using ins(2) len by simp
  then show ?thesis
    using Erase_wf [OF ins(4) k, where T = T] Inr r ins
    by (auto simp: Insert_def split: sum.splits)
qed

theorem Erase_undoes_Insert_witness:
  "wf_vector [Some [10, 20, 30, 0::int]] \<lparr>m_size = 3, m_capacity = 4, m_data = Some 0\<rparr>
   \<and> (1::nat) \<le> m_size \<lparr>m_size = 3, m_capacity = 4, m_data = Some 0\<rparr>
   \<and> Insert int_Type [Some [10, 20, 30, 0]] \<lparr>m_size = 3, m_capacity = 4, m_data = Some 0\<rparr>
        (Some 0, 1) 99
       = Inr ([Some [10, 99, 20, 30]], \<lparr>m_size = 4, m_capacity = 4, m_data = Some 0\<rparr>, (Some 0, 1))
   \<and> Erase int_Type [Some [10, 99, 20, 30]] \<lparr>m_size = 4, m_capacity = 4, m_data = Some 0\<rparr>
        (Some 0, 1)
       = Inr ([Some [10, 20, 30, 30]], \<lparr>m_size = 3, m_capacity = 4, m_data = Some 0\<rparr>, (Some 0, 1))
   \<and> elems [Some [10, 20, 30, 30::int]] \<lparr>m_size = 3, m_capacity = 4, m_data = Some 0\<rparr>
       = elems [Some [10, 20, 30, 0]] \<lparr>m_size = 3, m_capacity = 4, m_data = Some 0\<rparr>"
proof -
  have wf: "wf_vector [Some [10, 20, 30, 0::int]] \<lparr>m_size = 3, m_capacity = 4, m_data = Some 0\<rparr>"
    by (simp add: wf_vector_def owns_def PTRDIFF_MAX_def)
  have k: "(1::nat) \<le> m_size \<lparr>m_size = 3, m_capacity = 4, m_data = Some 0\<rparr>"
    by simp
  have sz: "size_t 4 = 4" "size_t (4 + 2 ^ 64 - 1) = 3"
    by (simp_all add: size_t_def)
  have ins: "Insert int_Type [Some [10, 20, 30, 0]] \<lparr>m_size = 3, m_capacity = 4, m_data = Some 0\<rparr>
        (Some 0, 1) 99
       = Inr ([Some [10, 99, 20, 30]], \<lparr>m_size = 4, m_capacity = 4, m_data = Some 0\<rparr>, (Some 0, 1))"
    by (simp add: Insert_def InsertImpl_def ptr_simps std_move_backward_def numeral_2_eq_2
        move_assign_elem_def load_def store_def sz int_Type_def)
  have era: "Erase int_Type [Some [10, 99, 20, 30]] \<lparr>m_size = 4, m_capacity = 4, m_data = Some 0\<rparr>
        (Some 0, 1)
       = Inr ([Some [10, 20, 30, 30]], \<lparr>m_size = 3, m_capacity = 4, m_data = Some 0\<rparr>, (Some 0, 1))"
    using sz(2)
    by (simp add: Erase_def ptr_simps std_move_def numeral_2_eq_2
        move_assign_elem_def load_def store_def int_Type_def)
  show ?thesis
    using wf k ins era Erase_undoes_Insert [OF wf k, where T = int_Type and x = 99]
    by (simp add: ptr_simps elems_def block_def)
qed

section \<open>Resize\<close>

lemma fill_n_last:
  assumes "b = length h" "i + n \<le> length ys"
  shows "fill_n (h @ [Some ys]) (Some b) i n x =
           Inr (h @ [Some (take i ys @ replicate n x @ drop (i + n) ys)])"
  using assms fill_n_live [of "length h" "h @ [Some ys]" ys i n x] by simp

lemma Resize_shrink: "n \<le> m_size v \<Longrightarrow> Resize T h v n = Inr (h, v\<lparr>m_size := n\<rparr>)"
  by (simp add: Resize_def)

lemma Resize_within:
  assumes "m_data v = Some a" "a < length h" "h ! a = Some xs" "length xs = m_capacity v"
    "m_size v < n" "n \<le> m_capacity v"
  shows "Resize T h v n =
     Inr (h[a := Some (take (m_size v) xs @ replicate (n - m_size v) (value_init T) @ drop n xs)],
          v\<lparr>m_size := n\<rparr>)"
  using assms fill_n_live [of a h xs "m_size v" "n - m_size v" "value_init T"]
  by (simp add: Resize_def)

lemma Resize_grow_null:
  assumes "m_data v = None" "m_capacity v = 0" "m_size v = 0" "0 < n" "n \<le> PTRDIFF_MAX"
  shows "Resize T h v n =
     Inr (h @ [Some (replicate n (value_init T))],
          \<lparr>m_size = n, m_capacity = n, m_data = Some (length h)\<rparr>)"
  using assms
  by (simp add: Resize_def ArrayPtr_size_ok ptr_simps std_move_empty fill_n_last
      ArrayPtr_swap_def destroy_null size_t_def)

lemma Resize_grow_live:
  assumes "m_data v = Some a" "a < length h" "h ! a = Some xs" "length xs = m_capacity v"
    "m_size v \<le> m_capacity v" "m_capacity v \<le> PTRDIFF_MAX" "m_capacity v < n"
    "max n (2 * m_capacity v) \<le> PTRDIFF_MAX"
  shows "Resize T h v n =
     Inr (h[a := None]
            @ [Some (take (m_size v) xs @ replicate (n - m_size v) (value_init T)
                     @ replicate (max n (2 * m_capacity v) - n) (default_init T))],
          \<lparr>m_size = n, m_capacity = max n (2 * m_capacity v), m_data = Some (length h)\<rparr>)"
proof -
  let ?c = "m_capacity v" and ?s = "m_size v"
  let ?N = "max n (2 * ?c)"
  let ?ys = "replicate ?N (default_init T)"
  have mv: "std_move T (h @ [Some ?ys]) (Get (Some a)) (ptr_add (Get (Some a)) ?s) (Get (Some (length h))) =
           Inr (h[a := Some (map (moved_from T) (take ?s xs) @ drop ?s xs)] @ [Some (take ?s xs @ drop ?s ?ys)])"
    using assms by (intro relocate_live) simp_all
  have fl: "fill_n (h[a := Some (map (moved_from T) (take ?s xs) @ drop ?s xs)] @ [Some (take ?s xs @ drop ?s ?ys)])
              (Some (length h)) ?s (n - ?s) (value_init T) =
            Inr (h[a := Some (map (moved_from T) (take ?s xs) @ drop ?s xs)]
                 @ [Some (take ?s (take ?s xs @ drop ?s ?ys) @ replicate (n - ?s) (value_init T)
                          @ drop (?s + (n - ?s)) (take ?s xs @ drop ?s ?ys))])"
    using assms by (intro fill_n_last) simp_all
  have blk: "take ?s (take ?s xs @ drop ?s ?ys) @ replicate (n - ?s) (value_init T)
                          @ drop (?s + (n - ?s)) (take ?s xs @ drop ?s ?ys)
           = take ?s xs @ replicate (n - ?s) (value_init T) @ replicate (?N - n) (default_init T)"
    using assms by simp
  have N: "0 < ?N" using assms by simp
  have fl': "fill_n (h[a := Some (map (moved_from T) (take ?s xs) @ drop ?s xs)] @ [Some (take ?s xs @ drop ?s ?ys)])
              (Some (length h)) ?s (n - ?s) (value_init T) =
            Inr (h[a := Some (map (moved_from T) (take ?s xs) @ drop ?s xs)]
                 @ [Some (take ?s xs @ replicate (n - ?s) (value_init T) @ replicate (?N - n) (default_init T))])"
    using fl blk by simp
  show ?thesis
    using assms mv N fl'
    by (simp add: Resize_def Let_def size_t_double ArrayPtr_size_ok ArrayPtr_swap_def
        destroy_last_live del: max.bounded_iff)
qed

lemma Resize_fail:
  assumes "wf_vector h v" "m_capacity v < n" "PTRDIFF_MAX < max n (2 * m_capacity v)"
  shows "Resize T h v n = Inl BadAlloc"
  using assms
  by (simp add: Resize_def Let_def size_t_double ArrayPtr_size_fail wf_vector_def
      del: max.bounded_iff max_less_iff_conj)

lemma owns_m_size_update [simp]: "owns h (v\<lparr>m_size := n\<rparr>) = owns h v"
  by (simp add: owns_def split: option.splits)

lemma Resize_effect:
  assumes "wf_vector h v"
  shows "case Resize T h v n of
           Inr (h', v') \<Rightarrow>
             m_size v' = n
             \<and> (n \<le> m_size v \<longrightarrow>
                  elems h' v' = take n (elems h v) \<and> m_capacity v' = m_capacity v
                  \<and> h' = h \<and> m_data v' = m_data v)
             \<and> (m_size v < n \<longrightarrow>
                  elems h' v' = elems h v @ replicate (n - m_size v) (value_init T))
             \<and> (m_size v < n \<and> n \<le> m_capacity v \<longrightarrow> m_capacity v' = m_capacity v)
             \<and> (m_capacity v < n \<longrightarrow> m_capacity v' = max n (2 * m_capacity v))
             \<and> wf_vector h' v' \<and> touches_only h (m_data v) h' (m_data v')
         | Inl e \<Rightarrow> e = BadAlloc \<and> m_capacity v < n \<and> PTRDIFF_MAX < max n (2 * m_capacity v)"
proof (cases "n \<le> m_size v")
  case True
  then show ?thesis using assms
    by (auto simp: Resize_shrink elems_def wf_vector_def touches_only_def min_def)
next
  case grow: False
  show ?thesis
  proof (cases "n \<le> m_capacity v")
    case True
    from assms show ?thesis
    proof (cases rule: wf_vector_cases)
      case null
      then show ?thesis using True grow by simp
    next
      case (live a xs)
      then show ?thesis using True grow Resize_within [of v a h xs n T]
        by (simp add: elems_def block_def wf_vector_def owns_def touches_only_def)
    qed
  next
    case False
    show ?thesis
    proof (cases "max n (2 * m_capacity v) \<le> PTRDIFF_MAX")
      case fits: True
      from assms show ?thesis
      proof (cases rule: wf_vector_cases)
        case null
        then show ?thesis using False grow fits Resize_grow_null [of v n T h]
          by (simp add: elems_def block_def wf_vector_def owns_def touches_only_def nth_append)
      next
        case (live a xs)
        then show ?thesis using False grow fits Resize_grow_live [of v a h xs n T]
          by (simp add: elems_def block_def wf_vector_def owns_def touches_only_def nth_append
              del: max.bounded_iff)
      qed
    next
      case False
      then show ?thesis using \<open>\<not> n \<le> m_capacity v\<close> assms Resize_fail [of h v n T]
        by (simp del: max.bounded_iff max_less_iff_conj)
    qed
  qed
qed

text \<open>
  C5. \<open>Resize(n)\<close>: with \<open>n \<le> size\<close> it keeps the elements \<open>[0, n)\<close>, the capacity and the
  buffer (nothing is freed or allocated); with \<open>size < n \<le> capacity\<close> it keeps the
  elements, sets the slots \<open>[size, n)\<close> to \<open>Type()\<close> and keeps the capacity; with
  \<open>n > capacity\<close> the capacity becomes \<open>max(n, 2 * capacity)\<close>, the elements are kept and
  the slots \<open>[size, n)\<close> are \<open>Type()\<close>. The only way the call fails is the allocation of
  the larger buffer.
\<close>

theorem Resize_three_cases:
  assumes "wf_vector h v"
  shows "case Resize T h v n of
           Inr (h', v') \<Rightarrow>
             m_size v' = n
             \<and> (n \<le> m_size v \<longrightarrow>
                  elems h' v' = take n (elems h v) \<and> m_capacity v' = m_capacity v
                  \<and> h' = h \<and> m_data v' = m_data v)
             \<and> (m_size v < n \<and> n \<le> m_capacity v \<longrightarrow>
                  elems h' v' = elems h v @ replicate (n - m_size v) (value_init T)
                  \<and> m_capacity v' = m_capacity v)
             \<and> (m_capacity v < n \<longrightarrow>
                  elems h' v' = elems h v @ replicate (n - m_size v) (value_init T)
                  \<and> m_capacity v' = max n (2 * m_capacity v))
         | Inl e \<Rightarrow> e = BadAlloc \<and> m_capacity v < n \<and> PTRDIFF_MAX < max n (2 * m_capacity v)"
proof -
  have "m_size v \<le> m_capacity v" using assms by (simp add: wf_vector_def)
  then show ?thesis
    using Resize_effect [OF assms, where T = T and n = n]
    by (auto split: sum.splits simp del: max.bounded_iff max_less_iff_conj)
qed

theorem Resize_three_cases_witness:
  "wf_vector [Some [10, 20, 30, 7::int]] \<lparr>m_size = 3, m_capacity = 4, m_data = Some 0\<rparr>
   \<and> Resize int_Type [Some [10, 20, 30, 7]] \<lparr>m_size = 3, m_capacity = 4, m_data = Some 0\<rparr> 2
       = Inr ([Some [10, 20, 30, 7]], \<lparr>m_size = 2, m_capacity = 4, m_data = Some 0\<rparr>)
   \<and> Resize int_Type [Some [10, 20, 30, 7]] \<lparr>m_size = 3, m_capacity = 4, m_data = Some 0\<rparr> 4
       = Inr ([Some [10, 20, 30, 0]], \<lparr>m_size = 4, m_capacity = 4, m_data = Some 0\<rparr>)
   \<and> Resize int_Type [Some [10, 20, 30, 7]] \<lparr>m_size = 3, m_capacity = 4, m_data = Some 0\<rparr> 5
       = Inr ([None, Some [10, 20, 30, 0, 0, 0, 0, 0]],
              \<lparr>m_size = 5, m_capacity = 8, m_data = Some 1\<rparr>)"
proof -
  let ?h = "[Some [10, 20, 30, 7::int]]"
  let ?v = "\<lparr>m_size = 3, m_capacity = 4, m_data = Some 0\<rparr>"
  have wf: "wf_vector ?h ?v"
    by (simp add: wf_vector_def owns_def PTRDIFF_MAX_def)
  have r2: "Resize int_Type ?h ?v 2 = Inr (?h, \<lparr>m_size = 2, m_capacity = 4, m_data = Some 0\<rparr>)"
    by (simp add: Resize_def)
  have r4: "Resize int_Type ?h ?v 4
       = Inr ([Some [10, 20, 30, 0]], \<lparr>m_size = 4, m_capacity = 4, m_data = Some 0\<rparr>)"
    by (simp add: Resize_def store_def int_Type_def)
  have r5: "Resize int_Type ?h ?v 5
       = Inr ([None, Some [10, 20, 30, 0, 0, 0, 0, 0]],
              \<lparr>m_size = 5, m_capacity = 8, m_data = Some 1\<rparr>)"
  proof -
    have "replicate 2 (0::int) = [0, 0]" "replicate 3 (0::int) = [0, 0, 0]"
      by (simp_all add: numeral_2_eq_2 numeral_3_eq_3)
    then show ?thesis
      using Resize_grow_live [of ?v 0 ?h "[10, 20, 30, 7]" 5 int_Type]
      by (simp add: PTRDIFF_MAX_def int_Type_def)
  qed
  show ?thesis
    using wf r2 r4 r5 Resize_three_cases [OF wf, where T = int_Type and n = 2]
      Resize_three_cases [OF wf, where T = int_Type and n = 4]
      Resize_three_cases [OF wf, where T = int_Type and n = 5]
    by simp
qed

section \<open>Construction, assignment and whole programs\<close>

lemma separate_Nil [simp]: "separate []"
  by (simp add: separate_def List.map_filter_simps)

lemma set_map_filter_conv: "set (List.map_filter f xs) = {y. \<exists>x \<in> set xs. f x = Some y}"
  by (induction xs) (auto split: option.splits)

lemma separate_Cons:
  "separate (v # vs) \<longleftrightarrow>
     separate vs \<and> (\<forall>a. m_data v = Some a \<longrightarrow> (\<forall>u \<in> set vs. m_data u \<noteq> Some a))"
  by (cases "m_data v") (auto simp: separate_def set_map_filter_conv)

lemma separate_nth:
  "separate vs \<longleftrightarrow>
     (\<forall>i < length vs. \<forall>j < length vs. i \<noteq> j \<longrightarrow>
        (\<forall>a. m_data (vs ! i) = Some a \<longrightarrow> m_data (vs ! j) \<noteq> Some a))"
proof (induction vs)
  case Nil
  then show ?case by simp
next
  case (Cons v vs)
  show ?case
  proof
    assume sep: "separate (v # vs)"
    then have tl: "separate vs" and hd: "\<And>a u. m_data v = Some a \<Longrightarrow> u \<in> set vs \<Longrightarrow> m_data u \<noteq> Some a"
      by (auto simp: separate_Cons)
    show "\<forall>i < length (v # vs). \<forall>j < length (v # vs). i \<noteq> j \<longrightarrow>
        (\<forall>a. m_data ((v # vs) ! i) = Some a \<longrightarrow> m_data ((v # vs) ! j) \<noteq> Some a)"
    proof (intro allI impI)
      fix i j a
      assume ij: "i < length (v # vs)" "j < length (v # vs)" "i \<noteq> j"
        and a: "m_data ((v # vs) ! i) = Some a"
      show "m_data ((v # vs) ! j) \<noteq> Some a"
      proof (cases i)
        case 0
        then obtain j' where j: "j = Suc j'" using ij by (cases j) auto
        then show ?thesis using 0 a ij hd [of a "vs ! j'"] by simp
      next
        case (Suc i')
        show ?thesis
        proof (cases j)
          case 0
          then show ?thesis using Suc a ij hd [of a "vs ! i'"] by auto
        next
          case (Suc j')
          then show ?thesis using \<open>i = Suc i'\<close> a ij tl Cons.IH by auto
        qed
      qed
    qed
  next
    assume idx: "\<forall>i < length (v # vs). \<forall>j < length (v # vs). i \<noteq> j \<longrightarrow>
        (\<forall>a. m_data ((v # vs) ! i) = Some a \<longrightarrow> m_data ((v # vs) ! j) \<noteq> Some a)"
    have "separate vs"
    proof -
      have "\<forall>i < length vs. \<forall>j < length vs. i \<noteq> j \<longrightarrow>
        (\<forall>a. m_data (vs ! i) = Some a \<longrightarrow> m_data (vs ! j) \<noteq> Some a)"
      proof (intro allI impI)
        fix i j a
        assume "i < length vs" "j < length vs" "i \<noteq> j" "m_data (vs ! i) = Some a"
        then show "m_data (vs ! j) \<noteq> Some a"
          using idx [rule_format, of "Suc i" "Suc j" a] by simp
      qed
      then show ?thesis using Cons.IH by simp
    qed
    moreover have "\<forall>a. m_data v = Some a \<longrightarrow> (\<forall>u \<in> set vs. m_data u \<noteq> Some a)"
    proof (intro allI impI ballI)
      fix a u
      assume a: "m_data v = Some a" and u: "u \<in> set vs"
      then obtain j where j: "j < length vs" "vs ! j = u" by (auto simp: in_set_conv_nth)
      then show "m_data u \<noteq> Some a"
        using idx [rule_format, of 0 "Suc j" a] a by simp
    qed
    ultimately show "separate (v # vs)" by (simp add: separate_Cons)
  qed
qed

lemma wf_vector_frame:
  assumes "wf_vector h u" "length h \<le> length h'" "\<And>a. m_data u = Some a \<Longrightarrow> h' ! a = h ! a"
  shows "wf_vector h' u"
  using assms by (auto simp: wf_vector_def owns_def split: option.splits)

lemma elems_frame:
  assumes "wf_vector h u" "length h \<le> length h'" "\<And>a. m_data u = Some a \<Longrightarrow> h' ! a = h ! a"
  shows "elems h' u = elems h u"
  using assms by (auto simp: wf_vector_def owns_def elems_def block_def split: option.splits)

lemma wf_vector_bound: "wf_vector h u \<Longrightarrow> m_data u = Some a \<Longrightarrow> a < length h"
  by (auto simp: wf_vector_def owns_def)

lemma wf_world_update:
  assumes "wf_world w" "this < length (objects w)" "wf_vector h' v'"
    "touches_only (free_store w) (m_data (objects w ! this)) h' (m_data v')"
  shows "wf_world \<lparr>free_store = h', objects = (objects w)[this := v']\<rparr>"
proof -
  let ?h = "free_store w" and ?vs = "objects w"
  have wfs: "\<And>i. i < length ?vs \<Longrightarrow> wf_vector ?h (?vs ! i)"
    using assms(1) by (simp add: wf_world_def list_all_length)
  have sep: "\<And>i j a. i < length ?vs \<Longrightarrow> j < length ?vs \<Longrightarrow> i \<noteq> j \<Longrightarrow>
      m_data (?vs ! i) = Some a \<Longrightarrow> m_data (?vs ! j) \<noteq> Some a"
    using assms(1) by (simp add: wf_world_def separate_nth)
  have len: "length ?h \<le> length h'"
    and same: "\<And>a. a < length ?h \<Longrightarrow> Some a \<noteq> m_data (?vs ! this) \<Longrightarrow> h' ! a = ?h ! a"
    and new: "m_data v' = m_data (?vs ! this) \<or> m_data v' = None
              \<or> (\<exists>b. m_data v' = Some b \<and> length ?h \<le> b)"
    using assms(4) by (auto simp: touches_only_def)
  have other: "wf_vector h' (?vs ! i)" if "i < length ?vs" "i \<noteq> this" for i
  proof (rule wf_vector_frame [OF wfs [OF that(1)] len])
    fix a assume a: "m_data (?vs ! i) = Some a"
    have "a < length ?h" using wfs [OF that(1)] a by (rule wf_vector_bound)
    moreover have "Some a \<noteq> m_data (?vs ! this)"
      using sep [OF that(1) assms(2) that(2) a] by simp
    ultimately show "h' ! a = ?h ! a" by (rule same)
  qed
  have all: "list_all (wf_vector h') (?vs[this := v'])"
    using other assms(2,3) by (auto simp: list_all_length nth_list_update)
  have "separate (?vs[this := v'])"
    unfolding separate_nth
  proof (intro allI impI)
    fix i j a
    assume ij: "i < length (?vs[this := v'])" "j < length (?vs[this := v'])" "i \<noteq> j"
      and a: "m_data (?vs[this := v'] ! i) = Some a"
    have bound: "\<And>k c. k < length ?vs \<Longrightarrow> m_data (?vs ! k) = Some c \<Longrightarrow> c < length ?h"
      using wfs wf_vector_bound by blast
    show "m_data (?vs[this := v'] ! j) \<noteq> Some a"
    proof (cases "i = this")
      case True
      then have v': "m_data v' = Some a" using a ij by simp
      have j: "j \<noteq> this" "j < length ?vs" using True ij by auto
      from new show ?thesis
      proof (elim disjE exE conjE)
        assume "m_data v' = m_data (?vs ! this)"
        then show ?thesis using v' sep [OF assms(2) j(2), of a] j ij True by simp
      next
        assume "m_data v' = None"
        then show ?thesis using v' by simp
      next
        fix b assume "m_data v' = Some b" "length ?h \<le> b"
        then show ?thesis using v' bound [OF j(2), of a] j by auto
      qed
    next
      case False
      then have ai: "m_data (?vs ! i) = Some a" "i < length ?vs" using a ij by auto
      show ?thesis
      proof (cases "j = this")
        case True
        from new show ?thesis
        proof (elim disjE exE conjE)
          assume "m_data v' = m_data (?vs ! this)"
          then show ?thesis using sep [OF ai(2) assms(2) False ai(1)] True ij by simp
        next
          assume "m_data v' = None"
          then show ?thesis using True ij by simp
        next
          fix b assume "m_data v' = Some b" "length ?h \<le> b"
          then show ?thesis using bound [OF ai(2) ai(1)] True ij by auto
        qed
      next
        case jf: False
        then show ?thesis using sep [OF ai(2) _ \<open>i \<noteq> j\<close> ai(1)] ij False by simp
      qed
    qed
  qed
  then show ?thesis using all by (simp add: wf_world_def)
qed

lemma map_filter_append:
  "List.map_filter f (xs @ ys) = List.map_filter f xs @ List.map_filter f ys"
  by (induction xs) (auto split: option.splits)

lemma separate_snoc_null: "m_data v = None \<Longrightarrow> separate (vs @ [v]) = separate vs"
  by (simp add: separate_def map_filter_append)

lemma wf_world_append:
  assumes "wf_world w" "wf_vector h' v'" "touches_only (free_store w) None h' (m_data v')"
  shows "wf_world \<lparr>free_store = h', objects = objects w @ [v']\<rparr>"
proof -
  let ?w1 = "\<lparr>free_store = free_store w, objects = objects w @ [SimpleVector_default]\<rparr>"
  have "wf_vector (free_store w) SimpleVector_default"
    by (simp add: SimpleVector_default_def wf_vector_def owns_def)
  then have "wf_world ?w1"
    using assms(1)
    by (simp add: wf_world_def separate_snoc_null SimpleVector_default_def)
  moreover have "length (objects w) < length (objects ?w1)" by simp
  moreover have "touches_only (free_store ?w1) (m_data (objects ?w1 ! length (objects w))) h' (m_data v')"
    using assms(3) by (simp add: SimpleVector_default_def)
  ultimately have "wf_world \<lparr>free_store = h', objects = (objects ?w1)[length (objects w) := v']\<rparr>"
    using assms(2) by (intro wf_world_update) 
  then show ?thesis by simp
qed

lemma store_Inl: "store h p i x = Inl e \<Longrightarrow> e = Undefined"
  by (auto simp: store_def split: option.splits if_splits)

lemma load_Inl: "load h p i = Inl e \<Longrightarrow> e = Undefined"
  by (auto simp: load_def split: option.splits if_splits)

lemma store_shape:
  assumes "store h p i x = Inr h'"
  shows "length h' = length h \<and> (\<forall>a < length h. map_option length (h' ! a) = map_option length (h ! a))"
  using assms by (auto simp: store_def nth_list_update split: option.splits if_splits)

lemma move_assign_elem_Inl: "move_assign_elem T h d i s j = Inl e \<Longrightarrow> e = Undefined"
  by (auto simp: move_assign_elem_def and_then_def split: sum.splits dest: store_Inl load_Inl)

lemma move_assign_elem_shape:
  assumes "move_assign_elem T h d i s j = Inr h'"
  shows "length h' = length h \<and> (\<forall>a < length h. map_option length (h' ! a) = map_option length (h ! a))"
proof -
  obtain x h1 where "load h s j = Inr x" "store h d i x = Inr h1" "store h1 s j (moved_from T x) = Inr h'"
    using assms by (auto simp: move_assign_elem_def and_then_def split: sum.splits)
  then show ?thesis using store_shape [of h d i x h1] store_shape [of h1 s j "moved_from T x" h']
    by simp
qed

lemma load_overrun:
  "a < length h \<Longrightarrow> map_option length (h ! a) = Some L \<Longrightarrow> L \<le> i \<Longrightarrow> load h (Some a) i = Inl Undefined"
  by (auto simp: load_def split: option.splits)

lemma move_n_overrun:
  "a < length h \<Longrightarrow> map_option length (h ! a) = Some L \<Longrightarrow> i \<le> L \<Longrightarrow> L < i + n \<Longrightarrow>
   move_n T h (Some a) i n d j = Inl Undefined"
proof (induction n arbitrary: h i j)
  case 0
  then show ?case by simp
next
  case (Suc n)
  show ?case
  proof (cases "move_assign_elem T h d j (Some a) i")
    case (Inl e)
    then show ?thesis using move_assign_elem_Inl [OF Inl] by simp
  next
    case (Inr h1)
    have "i < L"
    proof (rule ccontr)
      assume "\<not> i < L"
      then have "load h (Some a) i = Inl Undefined"
        using Suc.prems by (intro load_overrun [of a h L]) simp_all
      then show False using Inr by (simp add: move_assign_elem_def)
    qed
    moreover have "length h1 = length h" "map_option length (h1 ! a) = Some L"
      using move_assign_elem_shape [OF Inr] Suc.prems by simp_all
    ultimately have "move_n T h1 (Some a) (Suc i) n d (Suc j) = Inl Undefined"
      using Suc.prems by (intro Suc.IH) simp_all
    then show ?thesis using Inr by simp
  qed
qed

lemma move_n_null: "move_n T h None i (Suc n) d j = Inl Undefined"
  by (simp add: move_assign_elem_def load_def)

text \<open>An insertion position behind \<open>end()\<close> is undefined behaviour in either variant.\<close>

lemma InsertImpl_behind_end:
  assumes "wf_vector h v" "m_size v < k"
  shows "InsertImpl T h v (m_data v, k) x =
     (if m_size v = m_capacity v \<and> PTRDIFF_MAX < 2 * m_capacity v then Inl BadAlloc
      else Inl Undefined)"
  using assms(1)
proof (cases rule: wf_vector_cases)
  case null
  obtain n where k: "k = Suc n" using assms(2) by (cases k) auto
  show ?thesis using null k
    by (simp add: InsertImpl_def ptr_simps ArrayPtr_size_ok PTRDIFF_MAX_def std_move_def move_n_null
        del: move_n.simps)
next
  case (live a xs)
  show ?thesis
  proof (cases "m_size v = m_capacity v")
    case full: True
    show ?thesis
    proof (cases "2 * m_capacity v \<le> PTRDIFF_MAX")
      case True
      let ?H = "h @ [Some (replicate (2 * m_capacity v) (default_init T))]"
      have "move_n T ?H (Some a) 0 k (Some (length h)) 0 = Inl Undefined"
        using live full assms(2)
        by (intro move_n_overrun [where L = "m_capacity v"]) (simp_all add: nth_append)
      then show ?thesis using live full True
        by (simp add: InsertImpl_def ptr_simps ArrayPtr_size_ok size_t_double std_move_def)
    next
      case False
      then show ?thesis using live full
        by (simp add: InsertImpl_def ptr_simps ArrayPtr_size_fail size_t_double)
    qed
  next
    case False
    then show ?thesis using live assms(2)
      by (simp add: InsertImpl_def ptr_simps std_move_backward_def)
  qed
qed

lemma InsertImpl_foreign:
  "fst pos \<noteq> m_data v \<Longrightarrow> InsertImpl T h v pos x = Inl Undefined"
  by (simp add: InsertImpl_def ptr_simps)

lemma InsertImpl_Inr_valid:
  assumes "wf_vector h v" "InsertImpl T h v pos x = Inr r"
  shows "\<exists>k \<le> m_size v. pos = ptr_add (begin_it v) k"
proof -
  have fst: "fst pos = m_data v" using assms(2) InsertImpl_foreign [of pos v T h x] by auto
  have "snd pos \<le> m_size v"
  proof (rule ccontr)
    assume "\<not> snd pos \<le> m_size v"
    then have "InsertImpl T h v (m_data v, snd pos) x =
     (if m_size v = m_capacity v \<and> PTRDIFF_MAX < 2 * m_capacity v then Inl BadAlloc
      else Inl Undefined)"
      using assms(1) by (intro InsertImpl_behind_end) simp_all
    then show False using assms(2) fst by (cases pos) (auto split: if_splits)
  qed
  then show ?thesis using fst by (cases pos) (auto simp: ptr_simps)
qed

lemma InsertImpl_sound:
  assumes "wf_vector h v" "InsertImpl T h v pos x = Inr (h', v', it)"
  shows "wf_vector h' v' \<and> touches_only h (m_data v) h' (m_data v')"
proof -
  obtain k where "k \<le> m_size v" "pos = ptr_add (begin_it v) k"
    using InsertImpl_Inr_valid [OF assms] by auto
  then show ?thesis using assms InsertImpl_sound_valid [of h v k T x h' v' it] by simp
qed

lemma Erase_Inr_valid:
  assumes "Erase T h v pos = Inr r"
  shows "\<exists>k < m_size v. pos = ptr_add (begin_it v) k"
  using assms
  by (cases pos) (auto simp: Erase_def ptr_simps std_move_def and_then_def split: if_splits sum.splits)

lemma Erase_sound:
  assumes "wf_vector h v" "Erase T h v pos = Inr (h', v', it)"
  shows "wf_vector h' v' \<and> touches_only h (m_data v) h' (m_data v')"
proof -
  obtain k where k: "k < m_size v" "pos = ptr_add (begin_it v) k"
    using Erase_Inr_valid [OF assms(2)] by auto
  then show ?thesis using assms Erase_wf [OF assms(1) k(1), where T = T] by simp
qed

lemma Reserve_sound:
  assumes "wf_vector h v" "Reserve T h v n = Inr (h', v')"
  shows "wf_vector h' v' \<and> touches_only h (m_data v) h' (m_data v')"
proof (cases "m_capacity v < n")
  case grow: True
  show ?thesis
  proof (cases "n \<le> PTRDIFF_MAX")
    case True
    from assms(1) show ?thesis
    proof (cases rule: wf_vector_cases)
      case null
      then show ?thesis using assms(2) grow True Reserve_null [of v n T h]
        by (auto simp: wf_vector_def owns_def touches_only_def nth_append)
    next
      case (live a xs)
      then show ?thesis using assms(2) grow True Reserve_live [of v a h xs n T]
        by (auto simp: wf_vector_def owns_def touches_only_def nth_append)
    qed
  next
    case False
    then show ?thesis using assms(2) grow by (simp add: Reserve_def ArrayPtr_size_fail)
  qed
next
  case False
  then show ?thesis using assms by (auto simp: Reserve_def touches_only_def)
qed

lemma store_sound:
  assumes "wf_vector h v" "store h (m_data v) i x = Inr h'"
  shows "wf_vector h' v \<and> touches_only h (m_data v) h' (m_data v)"
  using assms
  by (auto simp: store_def wf_vector_def owns_def touches_only_def split: option.splits if_splits)

lemma PopBack_sound:
  assumes "wf_vector h v" "PopBack v = Inr v'"
  shows "wf_vector h v' \<and> touches_only h (m_data v) h (m_data v')"
proof -
  have "0 < m_size v" "m_size v \<le> PTRDIFF_MAX" using assms by (auto simp: PopBack_def wf_vector_def split: if_splits)
  then have "size_t (m_size v + 2 ^ 64 - 1) = m_size v - 1" by (rule size_t_dec)
  then show ?thesis using assms
    by (auto simp: PopBack_def wf_vector_def touches_only_def split: if_splits)
qed

lemma Clear_sound:
  assumes "wf_vector h v"
  shows "wf_vector h (Clear v) \<and> touches_only h (m_data v) h (m_data (Clear v))"
  using assms by (auto simp: Clear_def wf_vector_def touches_only_def)

lemma fill_n_0: "fill_n h p i 0 x = Inr h"
  by simp

lemma SimpleVector_reserve_result:
  "SimpleVector_reserve T h n =
     (if n = 0 then Inr (h, \<lparr>m_size = 0, m_capacity = 0, m_data = None\<rparr>)
      else if PTRDIFF_MAX < n then Inl BadAlloc
      else Inr (h @ [Some (replicate n (default_init T))],
                \<lparr>m_size = 0, m_capacity = n, m_data = Some (length h)\<rparr>))"
  by (simp add: SimpleVector_reserve_def ArrayPtr_size_0 ArrayPtr_size_ok ArrayPtr_size_fail)

lemma SimpleVector_fill_result:
  "SimpleVector_fill T h n x =
     (if n = 0 then Inr (h, \<lparr>m_size = 0, m_capacity = 0, m_data = None\<rparr>)
      else if PTRDIFF_MAX < n then Inl BadAlloc
      else Inr (h @ [Some (replicate n x)], \<lparr>m_size = n, m_capacity = n, m_data = Some (length h)\<rparr>))"
  by (simp add: SimpleVector_fill_def ArrayPtr_size_0 ArrayPtr_size_ok ArrayPtr_size_fail
      std_fill_def ptr_simps fill_n_last)

lemma SimpleVector_size_fill: "SimpleVector_size T h n = SimpleVector_fill T h n (value_init T)"
  by (simp add: SimpleVector_size_def SimpleVector_fill_def)

lemma SimpleVector_init_result:
  "SimpleVector_init T h init =
     (if init = [] then Inr (h, \<lparr>m_size = 0, m_capacity = 0, m_data = None\<rparr>)
      else if PTRDIFF_MAX < length init then Inl BadAlloc
      else Inr (h @ [Some init],
                \<lparr>m_size = length init, m_capacity = length init, m_data = Some (length h)\<rparr>))"
proof -
  have "copy_list (h @ [Some (replicate (length init) (default_init T))]) init (Some (length h)) 0 =
          Inr (h @ [Some init])"
    using copy_list_live [of "length h" "h @ [Some (replicate (length init) (default_init T))]"
        "replicate (length init) (default_init T)" 0 init]
    by simp
  then show ?thesis
    by (simp add: SimpleVector_init_def ArrayPtr_size_0 ArrayPtr_size_ok ArrayPtr_size_fail
        std_copy_init_def ptr_simps)
qed

lemma SimpleVector_copy_result:
  assumes "wf_vector h other"
  shows "SimpleVector_copy T h other =
     (if m_size other = 0 then Inr (h, \<lparr>m_size = 0, m_capacity = 0, m_data = None\<rparr>)
      else Inr (h @ [Some (elems h other)],
                \<lparr>m_size = m_size other, m_capacity = m_size other, m_data = Some (length h)\<rparr>))"
  using assms
proof (cases rule: wf_vector_cases)
  case null
  then show ?thesis by (simp add: SimpleVector_copy_def ArrayPtr_size_0)
next
  case (live a xs)
  let ?s = "m_size other"
  let ?ys = "replicate ?s (default_init T)"
  have "copy_n (h @ [Some ?ys]) (Some a) 0 ?s (Some (length h)) 0 =
     Inr ((h @ [Some ?ys])[length h := Some (take 0 ?ys @ take ?s (drop 0 xs) @ drop (0 + ?s) ?ys)])"
    using live by (intro copy_n_live) (simp_all add: nth_append)
  then have "copy_n (h @ [Some ?ys]) (Some a) 0 ?s (Some (length h)) 0 = Inr (h @ [Some (take ?s xs)])"
    by simp
  moreover have "?s \<le> PTRDIFF_MAX" using live by simp
  ultimately show ?thesis using live
    by (simp add: SimpleVector_copy_def ArrayPtr_size_0 ArrayPtr_size_ok std_copy_def ptr_simps
        elems_def)
qed

lemma constructed_sound:
  assumes "r = Inr (h', v')"
    "r = (if n = 0 then Inr (h, \<lparr>m_size = 0, m_capacity = 0, m_data = None\<rparr>)
          else if PTRDIFF_MAX < n then Inl BadAlloc
          else Inr (h @ [Some ys], \<lparr>m_size = s, m_capacity = n, m_data = Some (length h)\<rparr>))"
    "length ys = n" "s \<le> n"
  shows "wf_vector h' v' \<and> touches_only h None h' (m_data v')"
  using assms
  by (auto simp: wf_vector_def owns_def touches_only_def nth_append split: if_splits)

lemma SimpleVector_reserve_sound:
  "SimpleVector_reserve T h n = Inr (h', v') \<Longrightarrow>
   wf_vector h' v' \<and> touches_only h None h' (m_data v')"
  by (rule constructed_sound [where n = n and s = 0 and ys = "replicate n (default_init T)"])
     (simp_all add: SimpleVector_reserve_result)

lemma SimpleVector_fill_sound:
  "SimpleVector_fill T h n x = Inr (h', v') \<Longrightarrow>
   wf_vector h' v' \<and> touches_only h None h' (m_data v')"
  by (rule constructed_sound [where n = n and s = n and ys = "replicate n x"])
     (simp_all add: SimpleVector_fill_result)

lemma SimpleVector_init_sound:
  "SimpleVector_init T h init = Inr (h', v') \<Longrightarrow>
   wf_vector h' v' \<and> touches_only h None h' (m_data v')"
  by (rule constructed_sound [where n = "length init" and s = "length init" and ys = init])
     (simp_all add: SimpleVector_init_result)

lemma elems_length:
  assumes "wf_vector h v"
  shows "length (elems h v) = m_size v"
  using assms by (cases rule: wf_vector_cases) (simp_all add: elems_def)

lemma SimpleVector_copy_sound:
  assumes "wf_vector h other" "SimpleVector_copy T h other = Inr (h', v')"
  shows "wf_vector h' v' \<and> touches_only h None h' (m_data v')"
proof (rule constructed_sound [where n = "m_size other" and s = "m_size other" and ys = "elems h other"])
  show "SimpleVector_copy T h other = Inr (h', v')" by fact
  have "m_size other \<le> PTRDIFF_MAX" using assms(1) by (simp add: wf_vector_def)
  then show "SimpleVector_copy T h other =
    (if m_size other = 0 then Inr (h, \<lparr>m_size = 0, m_capacity = 0, m_data = None\<rparr>)
     else if PTRDIFF_MAX < m_size other then Inl BadAlloc
          else Inr (h @ [Some (elems h other)],
                    \<lparr>m_size = m_size other, m_capacity = m_size other, m_data = Some (length h)\<rparr>))"
    using SimpleVector_copy_result [OF assms(1), of T] by simp
  show "length (elems h other) = m_size other" using assms(1) by (rule elems_length)
qed simp

lemma swap_result: "swap v other = (other, v)"
  by (cases v; cases other) (simp add: swap_def ArrayPtr_swap_def)

lemma SimpleVector_move_result:
  "SimpleVector_move other = (other, \<lparr>m_size = 0, m_capacity = 0, m_data = None\<rparr>)"
  by (cases other) (simp add: SimpleVector_move_def Release_def)

lemma world_objects_update:
  "(w::'a world)\<lparr>objects := vs\<rparr> = \<lparr>free_store = free_store w, objects = vs\<rparr>"
  by (cases w) simp

lemma separate_reindex:
  assumes sep: "separate vs"
    and src: "\<And>i. i < length vs' \<Longrightarrow>
               m_data (vs' ! i) = None \<or> (g i < length vs \<and> m_data (vs' ! i) = m_data (vs ! g i))"
    and inj: "\<And>i j. i < length vs' \<Longrightarrow> j < length vs' \<Longrightarrow> i \<noteq> j \<Longrightarrow>
               m_data (vs' ! i) \<noteq> None \<Longrightarrow> m_data (vs' ! j) \<noteq> None \<Longrightarrow> g i \<noteq> g j"
  shows "separate vs'"
  unfolding separate_nth
proof (intro allI impI)
  fix i j a
  assume ij: "i < length vs'" "j < length vs'" "i \<noteq> j" and a: "m_data (vs' ! i) = Some a"
  show "m_data (vs' ! j) \<noteq> Some a"
  proof
    assume b: "m_data (vs' ! j) = Some a"
    have gi: "g i < length vs" "m_data (vs ! g i) = Some a" using src [OF ij(1)] a by auto
    have gj: "g j < length vs" "m_data (vs ! g j) = Some a" using src [OF ij(2)] b by auto
    have "g i \<noteq> g j" using inj [OF ij] a b by simp
    then have "m_data (vs ! g j) \<noteq> Some a"
      using sep [unfolded separate_nth, rule_format, OF gi(1) gj(1) _ gi(2)] by simp
    then show False using gj(2) by simp
  qed
qed

lemma wf_vector_null: "wf_vector h \<lparr>m_size = 0, m_capacity = 0, m_data = None\<rparr>"
  by (simp add: wf_vector_def owns_def)

lemma exchange_wf:
  assumes "wf_world w" "a < length (objects w)" "b < length (objects w)"
    "\<And>v. wf_vector (free_store w) v \<Longrightarrow> wf_vector (free_store w) (f v) \<and> m_data (f v) = m_data v"
  shows "wf_world (w\<lparr>objects := (objects w)[a := objects w ! b, b := f (objects w ! a)]\<rparr>)"
proof (cases "a = b")
  case True
  have "wf_vector (free_store w) (objects w ! a)"
    using assms(1,2) by (rule wf_world_nth)
  then have fa: "wf_vector (free_store w) (f (objects w ! a))"
    "m_data (f (objects w ! a)) = m_data (objects w ! a)"
    using assms(4) by simp_all
  have "touches_only (free_store w) (m_data (objects w ! a)) (free_store w) (m_data (f (objects w ! a)))"
    using fa(2) by (simp add: touches_only_def)
  then have "wf_world \<lparr>free_store = free_store w, objects = (objects w)[a := f (objects w ! a)]\<rparr>"
    using assms(1,2) fa(1) by (intro wf_world_update)
  then show ?thesis using True by (simp add: world_objects_update)
next
  case False
  let ?vs = "objects w"
  let ?vs' = "?vs[a := ?vs ! b, b := f (?vs ! a)]"
  let ?g = "\<lambda>i. if i = a then b else if i = b then a else i"
  have wfs: "\<And>i. i < length ?vs \<Longrightarrow> wf_vector (free_store w) (?vs ! i)"
    using assms(1) by (simp add: wf_world_def list_all_length)
  have fa: "wf_vector (free_store w) (f (?vs ! a))" "m_data (f (?vs ! a)) = m_data (?vs ! a)"
    using assms(4) [OF wfs [OF assms(2)]] by simp_all
  have at_a: "?vs' ! a = ?vs ! b" and at_b: "?vs' ! b = f (?vs ! a)"
    and at_c: "\<And>i. i \<noteq> a \<Longrightarrow> i \<noteq> b \<Longrightarrow> ?vs' ! i = ?vs ! i"
    using assms(2,3) False by simp_all
  have "separate ?vs'"
  proof (rule separate_reindex [where vs = ?vs and g = ?g])
    show "separate ?vs" using assms(1) by (simp add: wf_world_def)
  next
    fix i assume i: "i < length ?vs'"
    consider "i = a" | "i = b" | "i \<noteq> a" "i \<noteq> b" by blast
    then show "m_data (?vs' ! i) = None \<or> (?g i < length ?vs \<and> m_data (?vs' ! i) = m_data (?vs ! ?g i))"
    proof cases
      case 1
      then show ?thesis using at_a assms(3) by simp
    next
      case 2
      then show ?thesis using at_b fa(2) assms(2) False by simp
    next
      case 3
      then show ?thesis using at_c [of i] i by simp
    qed
  next
    fix i j
    assume "i < length ?vs'" "j < length ?vs'" "i \<noteq> j"
    then show "?g i \<noteq> ?g j" by (simp split: if_splits)
  qed
  moreover have "wf_vector (free_store w) (?vs' ! i)" if "i < length ?vs'" for i
  proof -
    consider "i = a" | "i = b" | "i \<noteq> a" "i \<noteq> b" by blast
    then show ?thesis
    proof cases
      case 1
      then show ?thesis using at_a wfs [OF assms(3)] by simp
    next
      case 2
      then show ?thesis using at_b fa(1) by simp
    next
      case 3
      then show ?thesis using at_c [of i] wfs [of i] that by simp
    qed
  qed
  ultimately show ?thesis by (simp add: wf_world_def list_all_length)
qed

lemma construct_move_wf:
  assumes "wf_world w" "other < length (objects w)"
  shows "wf_world (construct_move w other)"
proof -
  let ?vs = "objects w"
  let ?null = "\<lparr>m_size = 0, m_capacity = 0, m_data = None\<rparr>"
  let ?w1 = "\<lparr>free_store = free_store w, objects = ?vs @ [?null]\<rparr>"
  have "wf_world ?w1"
    using assms(1) by (simp add: wf_world_def separate_snoc_null wf_vector_null)
  moreover have "other < length (objects ?w1)" "length ?vs < length (objects ?w1)"
    using assms(2) by simp_all
  ultimately have "wf_world (?w1\<lparr>objects := (objects ?w1)[other := objects ?w1 ! length ?vs,
      length ?vs := (\<lambda>v. v) (objects ?w1 ! other)]\<rparr>)"
    by (intro exchange_wf) simp_all
  moreover have "(?vs @ [?null])[other := ?null, length ?vs := ?vs ! other] = ?vs[other := ?null] @ [?vs ! other]"
    using assms(2) by (simp add: list_update_append)
  ultimately show ?thesis using assms(2)
    by (simp add: construct_move_def SimpleVector_move_result world_objects_update nth_append)
qed

lemma assign_move_wf:
  assumes "wf_world w" "this < length (objects w)" "rhs < length (objects w)"
  shows "wf_world (assign_move w this rhs)"
proof (cases "this = rhs")
  case True
  then show ?thesis using assms by (simp add: assign_move_def)
next
  case False
  have "wf_world (w\<lparr>objects := (objects w)[this := objects w ! rhs, rhs := Clear (objects w ! this)]\<rparr>)"
    using assms by (intro exchange_wf) (simp_all add: Clear_sound, simp add: Clear_def)
  then show ?thesis using False by (simp add: assign_move_def swap_result)
qed

lemma swap_objects_wf:
  assumes "wf_world w" "a < length (objects w)" "b < length (objects w)"
  shows "wf_world (swap_objects w a b)"
proof -
  have "wf_world (w\<lparr>objects := (objects w)[a := objects w ! b, b := (\<lambda>v. v) (objects w ! a)]\<rparr>)"
    using assms by (intro exchange_wf) simp_all
  then show ?thesis by (simp add: swap_objects_def swap_result)
qed

lemma destroy_released:
  assumes "wf_vector h v" "length h \<le> length h1" "\<And>a. m_data v = Some a \<Longrightarrow> h1 ! a = h ! a"
  shows "SimpleVector_destroy h1 v = Inr (released h1 (m_data v))"
  using assms(1)
proof (cases rule: wf_vector_cases)
  case null
  then show ?thesis by (simp add: SimpleVector_destroy_def destroy_null released_def)
next
  case (live a xs)
  then have "a < length h1" "h1 ! a = Some xs" using assms(2,3) by simp_all
  then show ?thesis using live
    by (simp add: SimpleVector_destroy_def destroy_live released_def)
qed

lemma assign_copy_Header:
  assumes "wf_world w" "this < length (objects w)" "rhs < length (objects w)" "this \<noteq> rhs"
  shows "\<exists>h1 temp. SimpleVector_copy T (free_store w) (objects w ! rhs) = Inr (h1, temp)
          \<and> assign_copy Header T w this rhs =
              Inr \<lparr>free_store = released h1 (m_data (objects w ! this)),
                   objects = (objects w)[this := temp]\<rparr>
          \<and> wf_vector (released h1 (m_data (objects w ! this))) temp
          \<and> touches_only (free_store w) (m_data (objects w ! this))
                (released h1 (m_data (objects w ! this))) (m_data temp)
          \<and> elems (released h1 (m_data (objects w ! this))) temp
                = elems (free_store w) (objects w ! rhs)
          \<and> m_size temp = m_size (objects w ! rhs) \<and> m_capacity temp = m_size (objects w ! rhs)"
proof -
  let ?h = "free_store w" and ?t = "objects w ! this" and ?r = "objects w ! rhs"
  have wt: "wf_vector ?h ?t" and wr: "wf_vector ?h ?r"
    using assms by (simp_all add: wf_world_nth)
  obtain h1 temp where cp: "SimpleVector_copy T ?h ?r = Inr (h1, temp)"
    using SimpleVector_copy_result [OF wr, of T] by (cases "m_size ?r = 0") auto
  have snd: "wf_vector h1 temp" "touches_only ?h None h1 (m_data temp)"
    using SimpleVector_copy_sound [OF wr cp] by simp_all
  have len: "length ?h \<le> length h1" and same: "\<And>a. a < length ?h \<Longrightarrow> h1 ! a = ?h ! a"
    using snd(2) by (auto simp: touches_only_def)
  have same_t: "\<And>a. m_data ?t = Some a \<Longrightarrow> h1 ! a = ?h ! a"
    using same wf_vector_bound [OF wt] by blast
  have de: "SimpleVector_destroy h1 ?t = Inr (released h1 (m_data ?t))"
    using wt len same_t by (rule destroy_released)
  have res: "assign_copy Header T w this rhs =
              Inr \<lparr>free_store = released h1 (m_data ?t), objects = (objects w)[this := temp]\<rparr>"
    using assms(4) cp de
    by (simp add: assign_copy_def copy_construct_def swap_result)
  have fresh: "m_data temp = None \<or> m_data temp = Some (length ?h)"
    using cp SimpleVector_copy_result [OF wr, of T] by (auto split: if_splits)
  have tmp: "h1 = ?h \<and> temp = \<lparr>m_size = 0, m_capacity = 0, m_data = None\<rparr> \<and> m_size ?r = 0
     \<or> h1 = ?h @ [Some (elems ?h ?r)]
        \<and> temp = \<lparr>m_size = m_size ?r, m_capacity = m_size ?r, m_data = Some (length ?h)\<rparr>"
    using cp SimpleVector_copy_result [OF wr, of T] by (auto split: if_splits)
  have old: "\<And>a. m_data ?t = Some a \<Longrightarrow> a < length ?h"
    using wf_vector_bound [OF wt] by blast
  have rel_len: "length (released h1 (m_data ?t)) = length h1"
    by (cases "m_data ?t") (simp_all add: released_def)
  have rel_same: "released h1 (m_data ?t) ! b = h1 ! b" if "m_data temp = Some b" for b
  proof -
    have "b = length ?h" using fresh that by simp
    then show ?thesis using old by (cases "m_data ?t") (auto simp: released_def)
  qed
  have rel_le: "length h1 \<le> length (released h1 (m_data ?t))"
    by (simp only: rel_len)
  have wf': "wf_vector (released h1 (m_data ?t)) temp"
    using snd(1) rel_le rel_same by (rule wf_vector_frame)
  have to: "touches_only ?h (m_data ?t) (released h1 (m_data ?t)) (m_data temp)"
    unfolding touches_only_def
  proof (intro conjI allI impI)
    show "length ?h \<le> length (released h1 (m_data ?t))" using len rel_len by simp
  next
    fix a assume a: "a < length ?h" "Some a \<noteq> m_data ?t"
    then have "released h1 (m_data ?t) ! a = h1 ! a"
      by (cases "m_data ?t") (auto simp: released_def)
    then show "released h1 (m_data ?t) ! a = ?h ! a" using same a by simp
  next
    show "m_data temp = m_data ?t \<or> m_data temp = None
          \<or> (\<exists>b. m_data temp = Some b \<and> length ?h \<le> b)"
      using fresh by auto
  qed
  have "elems (released h1 (m_data ?t)) temp = elems h1 temp"
    using snd(1) rel_le rel_same by (rule elems_frame)
  moreover have "elems h1 temp = elems ?h ?r"
    using tmp
  proof (elim disjE conjE)
    assume "h1 = ?h" "temp = \<lparr>m_size = 0, m_capacity = 0, m_data = None\<rparr>" "m_size ?r = 0"
    then show ?thesis by (simp add: elems_def)
  next
    assume "h1 = ?h @ [Some (elems ?h ?r)]"
      "temp = \<lparr>m_size = m_size ?r, m_capacity = m_size ?r, m_data = Some (length ?h)\<rparr>"
    then show ?thesis using elems_length [OF wr]
      by (simp add: elems_def [of "?h @ [Some (elems ?h ?r)]"] block_def)
  qed
  ultimately have el: "elems (released h1 (m_data ?t)) temp = elems ?h ?r" by simp
  have sz: "m_size temp = m_size ?r" "m_capacity temp = m_size ?r"
    using tmp by auto
  show ?thesis using cp res wf' to el sz
    by (intro exI [of _ h1] exI [of _ temp]) simp
qed

lemma and_then_Inr_iff: "and_then m f = Inr y \<longleftrightarrow> (\<exists>x. m = Inr x \<and> f x = Inr y)"
  by (cases m) simp_all

lemma constructed_wf:
  assumes "wf_world w" "constructed w res = Inr (w', r)"
    "\<And>h' v'. res = Inr (h', v') \<Longrightarrow> wf_vector h' v' \<and> touches_only (free_store w) None h' (m_data v')"
  shows "wf_world w'"
proof -
  obtain h' v' where res: "res = Inr (h', v')"
    and w': "w' = \<lparr>free_store = h', objects = objects w @ [v']\<rparr>"
    using assms(2) by (auto simp: constructed_def and_then_Inr_iff)
  show ?thesis unfolding w' using assms(1) assms(3) [OF res] by (intro wf_world_append) simp_all
qed

lemma updated_wf:
  assumes "wf_world w" "this < length (objects w)"
    "wf_vector h' v' \<and> touches_only (free_store w) (m_data (objects w ! this)) h' (m_data v')"
    "updated w this h' v' res = Inr (w', r)"
  shows "wf_world w'"
proof -
  have "w' = \<lparr>free_store = h', objects = (objects w)[this := v']\<rparr>"
    using assms(4) by (simp add: updated_def)
  then show ?thesis using assms(1,2,3) by (simp add: wf_world_update)
qed

lemma stored_wf:
  assumes "wf_world w" "this < length (objects w)"
    "store (free_store w) (m_data (objects w ! this)) i x = Inr h'"
  shows "wf_world (w\<lparr>free_store := h'\<rparr>)"
proof -
  have "wf_vector (free_store w) (objects w ! this)" using assms(1,2) by (rule wf_world_nth)
  then have "wf_vector h' (objects w ! this) \<and>
      touches_only (free_store w) (m_data (objects w ! this)) h' (m_data (objects w ! this))"
    using assms(3) by (rule store_sound)
  then have "wf_world \<lparr>free_store = h', objects = (objects w)[this := objects w ! this]\<rparr>"
    using assms(1,2) by (intro wf_world_update) simp_all
  then have main: "wf_world \<lparr>free_store = h', objects = objects w\<rparr>"
    by simp
  have eq: "w\<lparr>free_store := h'\<rparr> = \<lparr>free_store = h', objects = objects w\<rparr>"
    by (cases w) simp
  show ?thesis unfolding eq by (rule main)
qed

lemma PushBack_move_sound:
  assumes "wf_vector h v" "PushBack_move T h v x = Inr (h', v', y)"
  shows "wf_vector h' v' \<and> touches_only h (m_data v) h' (m_data v')"
proof -
  have "PushBack T h v x = Inr (h', v')"
    using assms(2) by (auto simp: PushBack_move_PushBack and_then_Inr_iff)
  then show ?thesis by (rule PushBack_sound [OF assms(1)])
qed

lemma Resize_sound:
  assumes "wf_vector h v" "Resize T h v n = Inr (h', v')"
  shows "wf_vector h' v' \<and> touches_only h (m_data v) h' (m_data v')"
  using Resize_effect [OF assms(1), where T = T and n = n] assms(2) by simp

lemma member_call_wf_Header:
  assumes "wf_world w" "list_all (\<lambda>i. i < length (objects w)) (refs c)"
    "member_call Header T w c = Inr (w', r)"
  shows "wf_world w'"
proof (cases c)
  case New_default
  then show ?thesis using assms
    by (auto intro!: constructed_wf [OF assms(1), of _ w' r]
        simp: SimpleVector_default_def wf_vector_null touches_only_def)
next
  case (New_reserve n)
  then show ?thesis using assms
    by (auto intro!: constructed_wf [OF assms(1), of _ w' r] dest: SimpleVector_reserve_sound)
next
  case (New_size n)
  then show ?thesis using assms
    by (auto intro!: constructed_wf [OF assms(1), of _ w' r] dest: SimpleVector_fill_sound
        simp: SimpleVector_size_fill)
next
  case (New_fill n x)
  then show ?thesis using assms
    by (auto intro!: constructed_wf [OF assms(1), of _ w' r] dest: SimpleVector_fill_sound)
next
  case (New_init xs)
  then show ?thesis using assms
    by (auto intro!: constructed_wf [OF assms(1), of _ w' r] dest: SimpleVector_init_sound)
next
  case (New_copy other)
  then have o: "other < length (objects w)" using assms(2) by simp
  have wo: "wf_vector (free_store w) (objects w ! other)" using assms(1) o by (rule wf_world_nth)
  show ?thesis using New_copy assms(3) SimpleVector_copy_sound [OF wo]
    by (auto intro!: constructed_wf [OF assms(1), of _ w' r] simp: copy_construct_def)
next
  case (New_move other)
  then show ?thesis using assms by (auto simp: construct_move_wf)
next
  case (Assign_copy this rhs)
  then have b: "this < length (objects w)" "rhs < length (objects w)" using assms(2) by simp_all
  show ?thesis
  proof (cases "this = rhs")
    case True
    then show ?thesis using Assign_copy assms by (auto simp: assign_copy_def)
  next
    case False
    obtain h1 temp where
      "assign_copy Header T w this rhs =
         Inr \<lparr>free_store = released h1 (m_data (objects w ! this)), objects = (objects w)[this := temp]\<rparr>"
      "wf_vector (released h1 (m_data (objects w ! this))) temp"
      "touches_only (free_store w) (m_data (objects w ! this)) (released h1 (m_data (objects w ! this))) (m_data temp)"
      using assign_copy_Header [OF assms(1) b False, of T] by blast
    then show ?thesis using Assign_copy assms(1,3) b by (auto simp: wf_world_update)
  qed
next
  case (Assign_move this rhs)
  then show ?thesis using assms by (auto simp: assign_move_wf)
next
  case (Call_Reserve this n)
  then have b: "this < length (objects w)" using assms(2) by simp
  have wt: "wf_vector (free_store w) (objects w ! this)" using assms(1) b by (rule wf_world_nth)
  obtain h' v' where "Reserve T (free_store w) (objects w ! this) n = Inr (h', v')"
    "updated w this h' v' Done = Inr (w', r)"
    using Call_Reserve assms(3) by (auto simp: and_then_Inr_iff)
  then show ?thesis using Reserve_sound [OF wt] updated_wf [OF assms(1) b] by blast
next
  case (Call_GetSize this)
  then show ?thesis using assms by auto
next
  case (Call_GetCapacity this)
  then show ?thesis using assms by auto
next
  case (Call_IsEmpty this)
  then show ?thesis using assms by auto
next
  case (Call_index this i)
  then show ?thesis using assms by (auto simp: and_then_Inr_iff)
next
  case (Call_index_assign this i x)
  then show ?thesis using assms
    by (auto simp: and_then_Inr_iff index_assign_def intro: stored_wf)
next
  case (Call_At this i)
  then show ?thesis using assms by (auto simp: and_then_Inr_iff)
next
  case (Call_At_assign this i x)
  then show ?thesis using assms
    by (auto simp: and_then_Inr_iff At_assign_def intro: stored_wf split: if_splits)
next
  case (Call_Clear this)
  then have b: "this < length (objects w)" using assms(2) by simp
  have wt: "wf_vector (free_store w) (objects w ! this)" using assms(1) b by (rule wf_world_nth)
  show ?thesis using Call_Clear assms(3) updated_wf [OF assms(1) b Clear_sound [OF wt]] by simp
next
  case (Call_Resize this n)
  then have b: "this < length (objects w)" using assms(2) by simp
  have wt: "wf_vector (free_store w) (objects w ! this)" using assms(1) b by (rule wf_world_nth)
  obtain h' v' where "Resize T (free_store w) (objects w ! this) n = Inr (h', v')"
    "updated w this h' v' Done = Inr (w', r)"
    using Call_Resize assms(3) by (auto simp: and_then_Inr_iff)
  then show ?thesis using Resize_sound [OF wt] updated_wf [OF assms(1) b] by blast
next
  case (Call_PushBack this x)
  then have b: "this < length (objects w)" using assms(2) by simp
  have wt: "wf_vector (free_store w) (objects w ! this)" using assms(1) b by (rule wf_world_nth)
  obtain h' v' where "PushBack T (free_store w) (objects w ! this) x = Inr (h', v')"
    "updated w this h' v' Done = Inr (w', r)"
    using Call_PushBack assms(3) by (auto simp: and_then_Inr_iff)
  then show ?thesis using PushBack_sound [OF wt] updated_wf [OF assms(1) b] by blast
next
  case (Call_PushBack_move this x)
  then have b: "this < length (objects w)" using assms(2) by simp
  have wt: "wf_vector (free_store w) (objects w ! this)" using assms(1) b by (rule wf_world_nth)
  obtain h' v' y where "PushBack_move T (free_store w) (objects w ! this) x = Inr (h', v', y)"
    "updated w this h' v' (Left_over y) = Inr (w', r)"
    using Call_PushBack_move assms(3) by (auto simp: and_then_Inr_iff)
  then show ?thesis using PushBack_move_sound [OF wt] updated_wf [OF assms(1) b] by blast
next
  case (Call_Insert this pos x)
  then have b: "this < length (objects w)" using assms(2) by simp
  have wt: "wf_vector (free_store w) (objects w ! this)" using assms(1) b by (rule wf_world_nth)
  obtain h' v' it where "InsertImpl T (free_store w) (objects w ! this) pos x = Inr (h', v', it)"
    "updated w this h' v' (Position it) = Inr (w', r)"
    using Call_Insert assms(3) by (auto simp: and_then_Inr_iff Insert_def)
  then show ?thesis using InsertImpl_sound [OF wt] updated_wf [OF assms(1) b] by blast
next
  case (Call_Insert_move this pos x)
  then have b: "this < length (objects w)" using assms(2) by simp
  have wt: "wf_vector (free_store w) (objects w ! this)" using assms(1) b by (rule wf_world_nth)
  obtain h' v' it y where "InsertImpl T (free_store w) (objects w ! this) pos x = Inr (h', v', it)"
    "updated w this h' v' (Position_left_over it y) = Inr (w', r)"
    using Call_Insert_move assms(3) by (auto simp: and_then_Inr_iff Insert_move_def)
  then show ?thesis using InsertImpl_sound [OF wt] updated_wf [OF assms(1) b] by blast
next
  case (Call_PopBack this)
  then have b: "this < length (objects w)" using assms(2) by simp
  have wt: "wf_vector (free_store w) (objects w ! this)" using assms(1) b by (rule wf_world_nth)
  obtain v' where "PopBack (objects w ! this) = Inr v'"
    "updated w this (free_store w) v' Done = Inr (w', r)"
    using Call_PopBack assms(3) by (auto simp: and_then_Inr_iff)
  then show ?thesis using PopBack_sound [OF wt] updated_wf [OF assms(1) b] by blast
next
  case (Call_Erase this pos)
  then have b: "this < length (objects w)" using assms(2) by simp
  have wt: "wf_vector (free_store w) (objects w ! this)" using assms(1) b by (rule wf_world_nth)
  obtain h' v' it where "Erase T (free_store w) (objects w ! this) pos = Inr (h', v', it)"
    "updated w this h' v' (Position it) = Inr (w', r)"
    using Call_Erase assms(3) by (auto simp: and_then_Inr_iff)
  then show ?thesis using Erase_sound [OF wt] updated_wf [OF assms(1) b] by blast
next
  case (Call_swap this other)
  then show ?thesis using assms by (auto simp: swap_objects_wf)
next
  case (Call_begin this)
  then show ?thesis using assms by auto
next
  case (Call_end this)
  then show ?thesis using assms by auto
qed

lemma and_then_assoc: "and_then (and_then m f) g = and_then m (\<lambda>x. and_then (f x) g)"
  by (cases m) simp_all

lemma SimpleVector_size_p_eq: "SimpleVector_size_p T h n = SimpleVector_size T h n"
  by (cases "n = 0")
     (auto simp: SimpleVector_size_p_def SimpleVector_size_def ArrayPtr_size_def new_array_def
        std_fill_def ptr_simps and_then_def split: sum.splits)

lemma SimpleVector_fill_p_eq: "SimpleVector_fill_p T h n x = SimpleVector_fill T h n x"
  by (cases "n = 0")
     (auto simp: SimpleVector_fill_p_def SimpleVector_fill_def ArrayPtr_size_def new_array_def
        std_fill_def ptr_simps and_then_def split: sum.splits)

lemma SimpleVector_init_p_eq: "SimpleVector_init_p T h init = SimpleVector_init T h init"
  by (cases "init = []")
     (auto simp: SimpleVector_init_p_def SimpleVector_init_def ArrayPtr_size_def new_array_def
        std_copy_init_def ptr_simps and_then_def split: sum.splits)

lemma SimpleVector_copy_p_eq: "SimpleVector_copy_p T h other = SimpleVector_copy T h other"
  by (cases "m_size other = 0")
     (auto simp: SimpleVector_copy_p_def SimpleVector_copy_def ArrayPtr_size_def new_array_def
        std_copy_def ptr_simps and_then_def split: sum.splits)

lemma Reserve_p_eq: "Reserve_p T h v n = Reserve T h v n"
  by (simp add: Reserve_p_def Reserve_def ptr_simps)

lemma Resize_p_eq: "Resize_p T h v n = Resize T h v n"
  by (simp add: Resize_p_def Resize_def ptr_simps)

lemma Erase_p_eq: "Erase_p T h v pos = Erase T h v pos"
  by (simp add: Erase_p_def Erase_def ptr_simps)

lemma PushBack_p_eq:
  assumes "wf_vector h v"
  shows "PushBack_p T h v x = PushBack T h v x"
proof (cases "m_size v = m_capacity v")
  case False
  then have "m_size v < m_capacity v" using assms by (simp add: wf_vector_def)
  then show ?thesis by (simp add: PushBack_p_def PushBack_def and_then_assoc)
next
  case full: True
  let ?N = "if m_capacity v = 0 then 1 else size_t (m_capacity v * 2)"
  have N: "?N = (if m_capacity v = 0 then 1 else 2 * m_capacity v)"
    using assms by (simp add: wf_vector_size_t)
  show ?thesis
  proof (cases "?N \<le> PTRDIFF_MAX")
    case fits: True
    have gt: "m_capacity v < ?N" using N by (simp split: if_splits)
    have rs: "Reserve T h v ?N =
     Inr (released h (m_data v) @ [Some (elems h v @ replicate (?N - m_size v) (default_init T))],
          \<lparr>m_size = m_size v, m_capacity = ?N, m_data = Some (length h)\<rparr>)"
      using assms gt fits by (rule Reserve_wf)
    have len: "length (elems h v) = m_size v" using assms by (rule elems_length)
    have upd: "(elems h v @ replicate (?N - m_size v) (default_init T))[m_size v := x]
        = elems h v @ [x] @ replicate (?N - m_size v - 1) (default_init T)"
    proof -
      have "0 < ?N - m_size v" using gt full by simp
      then obtain m where m: "?N - m_size v = Suc m" by (cases "?N - m_size v") auto
      show ?thesis using len unfolding m by (simp add: list_update_append)
    qed
    have p: "PushBack_p T h v x =
       Inr (released h (m_data v) @ [Some (elems h v @ [x] @ replicate (?N - m_size v - 1) (default_init T))],
          \<lparr>m_size = m_size v + 1, m_capacity = ?N, m_data = Some (length h)\<rparr>)"
    proof -
      have "length (released h (m_data v)) = length h"
        by (cases "m_data v") (simp_all add: released_def)
      moreover have "m_size v < length (elems h v @ replicate (?N - m_size v) (default_init T))"
        using len gt full by simp
      moreover have "size_t (Suc (m_size v)) = Suc (m_size v)"
        using assms by (intro size_t_Suc) (simp add: wf_vector_def)
      ultimately show ?thesis using full rs upd
        by (simp add: PushBack_p_def Reserve_p_eq store_last del: replicate_Suc)
    qed
    from assms have "PushBack T h v x =
       Inr (released h (m_data v) @ [Some (elems h v @ [x] @ replicate (?N - m_size v - 1) (default_init T))],
          \<lparr>m_size = m_size v + 1, m_capacity = ?N, m_data = Some (length h)\<rparr>)"
    proof (cases rule: wf_vector_cases)
      case null
      then show ?thesis by (simp add: PushBack_null released_def elems_def)
    next
      case (live a xs)
      then show ?thesis using full fits N
        by (simp add: PushBack_full released_def elems_def)
    qed
    then show ?thesis using p by simp
  next
    case False
    then have "PTRDIFF_MAX < 2 * m_capacity v" "m_capacity v \<noteq> 0"
      using N by (auto simp: PTRDIFF_MAX_def split: if_splits)
    then show ?thesis using full assms PushBack_fail [of h v T x]
      by (simp add: PushBack_p_def Reserve_p_eq Reserve_def wf_vector_size_t ArrayPtr_size_fail)
  qed
qed

lemma PushBack_move_p_eq:
  assumes "wf_vector h v"
  shows "PushBack_move_p T h v x = PushBack_move T h v x"
proof -
  have "PushBack_move_p T h v x =
          and_then (PushBack_p T h v x) (\<lambda>(h', v'). Inr (h', v', moved_from T x))"
    by (simp add: PushBack_move_p_def PushBack_p_def and_then_def split: sum.splits prod.splits)
  then show ?thesis using PushBack_p_eq [OF assms] by (simp add: PushBack_move_PushBack)
qed

lemma InsertImpl_p_room:
  assumes "m_size v < m_capacity v"
  shows "InsertImpl_p T h v pos x = InsertImpl T h v pos x"
  using assms by (simp add: InsertImpl_p_def InsertImpl_def ptr_simps and_then_assoc)

lemma InsertImpl_p_foreign:
  "fst pos \<noteq> m_data v \<Longrightarrow> InsertImpl_p T h v pos x = Inl Undefined"
  by (simp add: InsertImpl_p_def ptr_simps)

lemma InsertImpl_p_full:
  assumes "wf_vector h v" "m_size v = m_capacity v"
  shows "InsertImpl_p T h v (m_data v, k) x = InsertImpl T h v (m_data v, k) x"
proof -
  define N where "N = (if m_capacity v = 0 then 1 else size_t (m_capacity v * 2))"
  note N_fold = N_def [symmetric]
  let ?s = "m_size v"
  let ?d = "default_init T"
  have N: "N = (if m_capacity v = 0 then 1 else 2 * m_capacity v)"
    using assms by (simp add: N_def wf_vector_size_t)
  have pos: "(m_data v, k) = ptr_add (begin_it v) k" by (simp add: ptr_simps)
  show ?thesis
  proof (cases "N \<le> PTRDIFF_MAX")
    case fits: True
    have gt: "m_capacity v < N" using N by (simp split: if_splits)
    have rs: "Reserve T h v N =
     Inr (released h (m_data v) @ [Some (elems h v @ replicate (N - ?s) ?d)],
          \<lparr>m_size = ?s, m_capacity = N, m_data = Some (length h)\<rparr>)"
      using assms(1) gt fits by (rule Reserve_wf)
    note rs' = rs [unfolded N_def]
    have len: "length (elems h v) = ?s" using assms(1) by (rule elems_length)
    have rlen: "length (released h (m_data v)) = length h"
      by (cases "m_data v") (simp_all add: released_def)
    let ?H = "released h (m_data v) @ [Some (elems h v @ replicate (N - ?s) ?d)]"
    let ?v1 = "\<lparr>m_size = ?s, m_capacity = N, m_data = Some (length h)\<rparr>"
    have sN: "?s < N" using gt assms(2) by simp
    have le: "m_capacity v \<le> ?s" using assms(2) by simp
    show ?thesis
    proof (cases "k \<le> ?s")
      case valid: True
      have sr: "\<And>f. and_then (std_move_backward T ?H (Some (length h), k) (Some (length h), ?s)
                     (Some (length h), Suc ?s))
               (\<lambda>h1. and_then (store h1 (Some (length h)) k x) f) =
             f (?H[length h := Some (take k (elems h v @ replicate (N - ?s) ?d) @ [x]
                      @ take (?s - k) (drop k (elems h v @ replicate (N - ?s) ?d))
                      @ drop (Suc ?s) (elems h v @ replicate (N - ?s) ?d))])"
        using valid sN len rlen by (intro shift_right_then_store) (simp_all add: nth_append)
      have blk: "take k (elems h v @ replicate (N - ?s) ?d) @ [x]
                      @ take (?s - k) (drop k (elems h v @ replicate (N - ?s) ?d))
                      @ drop (Suc ?s) (elems h v @ replicate (N - ?s) ?d)
           = take k (elems h v) @ [x] @ drop k (elems h v) @ replicate (N - ?s - 1) ?d"
        using valid len sN by simp
      have szt: "size_t (Suc ?s) = Suc ?s"
        using assms(1) by (intro size_t_Suc) (simp add: wf_vector_def)
      have p: "InsertImpl_p T h v (m_data v, k) x =
         Inr (released h (m_data v)
                @ [Some (take k (elems h v) @ [x] @ drop k (elems h v) @ replicate (N - ?s - 1) ?d)],
              \<lparr>m_size = ?s + 1, m_capacity = N, m_data = Some (length h)\<rparr>,
              (Some (length h), k))"
        using rs szt rlen le
        apply (simp add: InsertImpl_p_def Reserve_p_eq ptr_simps N_fold del: replicate_Suc)
        apply (simp only: sr blk)
        apply (simp add: list_update_length [of "released h (m_data v)", unfolded rlen])
        done
      from assms(1) have "InsertImpl T h v (ptr_add (begin_it v) k) x =
         Inr (released h (m_data v)
                @ [Some (take k (elems h v) @ [x] @ drop k (elems h v) @ replicate (N - ?s - 1) ?d)],
              \<lparr>m_size = ?s + 1, m_capacity = N, m_data = Some (length h)\<rparr>,
              (Some (length h), k))"
      proof (cases rule: wf_vector_cases)
        case null
        then show ?thesis using valid N InsertImpl_null [of v T h x]
          by (simp add: released_def elems_def)
      next
        case (live a xs)
        then show ?thesis using assms(2) fits N valid InsertImpl_full [of v a h xs k T x]
          by (simp add: released_def elems_def split: if_splits)
      qed
      then show ?thesis using p pos by simp
    next
      case False
      then have k: "?s < k" by simp
      have "InsertImpl T h v (m_data v, k) x = Inl Undefined"
        using InsertImpl_behind_end [OF assms(1) k, of T x] fits N
        by (auto simp: PTRDIFF_MAX_def split: if_splits)
      moreover have "InsertImpl_p T h v (m_data v, k) x = Inl Undefined"
        using assms(2) rs k
        by (simp add: InsertImpl_p_def Reserve_p_eq ptr_simps std_move_backward_def N_fold)
      ultimately show ?thesis by simp
    qed
  next
    case False
    then have big: "PTRDIFF_MAX < 2 * m_capacity v" "m_capacity v \<noteq> 0"
      using N by (auto simp: PTRDIFF_MAX_def split: if_splits)
    have "InsertImpl T h v (m_data v, k) x = Inl BadAlloc"
      using InsertImpl_fail [OF assms big(1), of T k x] pos by simp
    moreover have "InsertImpl_p T h v (m_data v, k) x = Inl BadAlloc"
      using assms big
      by (simp add: InsertImpl_p_def Reserve_p_eq Reserve_def ptr_simps wf_vector_size_t
          ArrayPtr_size_fail)
    ultimately show ?thesis by simp
  qed
qed

lemma InsertImpl_p_eq:
  assumes "wf_vector h v"
  shows "InsertImpl_p T h v pos x = InsertImpl T h v pos x"
proof (cases "fst pos = m_data v")
  case False
  then show ?thesis by (simp add: InsertImpl_p_foreign InsertImpl_foreign)
next
  case True
  then obtain k where pos: "pos = (m_data v, k)" by (cases pos) auto
  show ?thesis
  proof (cases "m_size v = m_capacity v")
    case True
    then show ?thesis using assms pos by (simp add: InsertImpl_p_full)
  next
    case False
    then have "m_size v < m_capacity v" using assms by (simp add: wf_vector_def)
    then show ?thesis by (rule InsertImpl_p_room)
  qed
qed

lemma copy_construct_eq: "copy_construct Part_001 T h other = copy_construct Header T h other"
  by (simp add: copy_construct_def SimpleVector_copy_p_eq)

lemma assign_copy_eq: "assign_copy Part_001 T w this rhs = assign_copy Header T w this rhs"
  by (simp add: assign_copy_def copy_construct_eq)

lemma member_call_eq:
  assumes "wf_world w" "list_all (\<lambda>i. i < length (objects w)) (refs c)"
  shows "member_call Part_001 T w c = member_call Header T w c"
proof (cases c)
  case (Call_PushBack this x)
  then have "wf_vector (free_store w) (objects w ! this)" using assms by (simp add: wf_world_nth)
  then show ?thesis using Call_PushBack by (simp add: PushBack_p_eq)
next
  case (Call_PushBack_move this x)
  then have "wf_vector (free_store w) (objects w ! this)" using assms by (simp add: wf_world_nth)
  then show ?thesis using Call_PushBack_move by (simp add: PushBack_move_p_eq)
next
  case (Call_Insert this pos x)
  then have "wf_vector (free_store w) (objects w ! this)" using assms by (simp add: wf_world_nth)
  then show ?thesis using Call_Insert by (simp add: Insert_p_def Insert_def InsertImpl_p_eq)
next
  case (Call_Insert_move this pos x)
  then have "wf_vector (free_store w) (objects w ! this)" using assms by (simp add: wf_world_nth)
  then show ?thesis using Call_Insert_move
    by (simp add: Insert_move_p_def Insert_move_def InsertImpl_p_eq)
qed (simp_all add: SimpleVector_size_p_eq SimpleVector_fill_p_eq SimpleVector_init_p_eq
      copy_construct_eq assign_copy_eq Reserve_p_eq Resize_p_eq Erase_p_eq)

lemma step_eq:
  assumes "wf_world w"
  shows "step Part_001 T w c = step Header T w c"
  using assms by (simp add: step_def member_call_eq)

lemma step_wf_Header:
  assumes "wf_world w" "step Header T w c = Inr (w', r)"
  shows "wf_world w'"
  using assms by (auto simp: step_def split: if_splits intro: member_call_wf_Header)

lemma run_wf_Header:
  assumes "wf_world w"
  shows "wf_world (fst (run Header T w cs))"
  using assms
proof (induction cs arbitrary: w)
  case Nil
  then show ?case by simp
next
  case (Cons c cs)
  show ?case
  proof (cases "step Header T w c")
    case (Inl e)
    then show ?thesis using Cons by (simp add: split_beta)
  next
    case (Inr p)
    obtain w' r where p: "p = (w', r)" by (cases p) auto
    have "wf_world w'" using Cons.prems Inr p step_wf_Header by blast
    then have "wf_world (fst (run Header T w' cs))" by (rule Cons.IH)
    then show ?thesis using Inr p by (simp add: split_beta)
  qed
qed

lemma run_eq:
  assumes "wf_world w"
  shows "run Part_001 T w cs = run Header T w cs"
  using assms
proof (induction cs arbitrary: w)
  case Nil
  then show ?case by simp
next
  case (Cons c cs)
  have st: "step Part_001 T w c = step Header T w c" using Cons.prems by (rule step_eq)
  show ?case
  proof (cases "step Header T w c")
    case (Inl e)
    then show ?thesis using st Cons by simp
  next
    case (Inr p)
    obtain w' r where p: "p = (w', r)" by (cases p) auto
    have "wf_world w'" using Cons.prems Inr p step_wf_Header by blast
    then have "run Part_001 T w' cs = run Header T w' cs" by (rule Cons.IH)
    then show ?thesis using st Inr p by simp
  qed
qed

lemma wf_world_empty: "wf_world empty_world"
  by (simp add: wf_world_def empty_world_def)

lemma run_wf:
  assumes "wf_world w"
  shows "wf_world (fst (run var T w cs))"
  using run_wf_Header [OF assms, of T cs] run_eq [OF assms, of T cs] by (cases var) simp_all

lemma example_run:
  "run Header int_Type empty_world [New_init [1, 2], Call_PushBack 0 3, Call_PopBack 0, Call_At 0 2]
     = (\<lparr>free_store = [None, Some [1, 2, 3, 0]],
         objects = [\<lparr>m_size = 2, m_capacity = 4, m_data = Some 1\<rparr>]\<rparr>,
        [Inr Done, Inr Done, Inr Done, Inl OutOfRange])"
proof -
  let ?w1 = "\<lparr>free_store = [Some [1, 2::int]], objects = [\<lparr>m_size = 2, m_capacity = 2, m_data = Some 0\<rparr>]\<rparr>"
  let ?w2 = "\<lparr>free_store = [None, Some [1, 2, 3, 0::int]],
             objects = [\<lparr>m_size = 3, m_capacity = 4, m_data = Some 1\<rparr>]\<rparr>"
  let ?w3 = "\<lparr>free_store = [None, Some [1, 2, 3, 0::int]],
             objects = [\<lparr>m_size = 2, m_capacity = 4, m_data = Some 1\<rparr>]\<rparr>"
  have s1: "step Header int_Type empty_world (New_init [1, 2]) = Inr (?w1, Done)"
    by (simp add: step_def constructed_def SimpleVector_init_result empty_world_def PTRDIFF_MAX_def)
  have s2: "step Header int_Type ?w1 (Call_PushBack 0 3) = Inr (?w2, Done)"
    using PushBack_full [of "\<lparr>m_size = 2, m_capacity = 2, m_data = Some 0\<rparr>" 0 "[Some [1, 2::int]]"
        "[1, 2]" int_Type 3]
    by (simp add: step_def updated_def PTRDIFF_MAX_def int_Type_def)
  have "size_t (3 + 2 ^ 64 - 1) = 2" by (simp add: size_t_def)
  then have s3: "step Header int_Type ?w2 (Call_PopBack 0) = Inr (?w3, Done)"
    by (simp add: step_def updated_def PopBack_def)
  have s4: "step Header int_Type ?w3 (Call_At 0 2) = Inl OutOfRange"
    by (simp add: step_def At_def)
  show ?thesis using s1 s2 s3 s4 by (simp add: recoverable_def)
qed

text \<open>
  C7. In every state a program reaches from the empty state by constructors and calls of the
  public interface (a call stops the program when it fails an assertion or is undefined), every
  vector has \<open>size \<le> capacity\<close>. This holds for both variants of the header.
\<close>

theorem size_le_capacity:
  "list_all (\<lambda>v. m_size v \<le> m_capacity v) (objects (fst (run var T empty_world cs)))"
proof -
  have "wf_world (fst (run var T empty_world cs))"
    using wf_world_empty by (rule run_wf)
  then show ?thesis by (simp add: wf_world_def wf_vector_def list_all_length)
qed

theorem size_le_capacity_witness:
  "objects (fst (run Header int_Type empty_world
      [New_init [1, 2], Call_PushBack 0 3, Call_PopBack 0, Call_At 0 2]))
     = [\<lparr>m_size = 2, m_capacity = 4, m_data = Some 1\<rparr>]
   \<and> list_all (\<lambda>v. m_size v \<le> m_capacity v)
        [\<lparr>m_size = 2, m_capacity = 4, m_data = Some 1\<rparr>]"
proof -
  have r: "objects (fst (run Header int_Type empty_world
      [New_init [1, 2], Call_PushBack 0 3, Call_PopBack 0, Call_At 0 2]))
     = [\<lparr>m_size = 2, m_capacity = 4, m_data = Some 1\<rparr>]"
    unfolding example_run by simp
  show ?thesis
    using size_le_capacity [of Header int_Type
      "[New_init [1, 2], Call_PushBack 0 3, Call_PopBack 0, Call_At 0 2]"]
    unfolding r by simp
qed



section \<open>Move construction and move assignment\<close>

text \<open>
  C1 as stated does not hold: move assignment swaps the two objects and then clears the
  source, so the source keeps the capacity (and the buffer) the destination had. After
  \<open>SimpleVector<int> a{1, 2}, b{3}; a = std::move(b);\<close> the source \<open>b\<close> has size 0 and
  capacity 2.
\<close>

theorem move_assignment_source_capacity_counterexample:
  "run Header int_Type empty_world
     [New_init [1, 2], New_init [3], Assign_move 0 1, Call_GetSize 1, Call_GetCapacity 1]
   = (\<lparr>free_store = [Some [1, 2], Some [3]],
       objects = [\<lparr>m_size = 1, m_capacity = 1, m_data = Some 1\<rparr>,
                  \<lparr>m_size = 0, m_capacity = 2, m_data = Some 0\<rparr>]\<rparr>,
      [Inr Done, Inr Done, Inr Done, Inr (Number 0), Inr (Number 2)])"
proof -
  let ?w1 = "\<lparr>free_store = [Some [1, 2::int]], objects = [\<lparr>m_size = 2, m_capacity = 2, m_data = Some 0\<rparr>]\<rparr>"
  let ?w2 = "\<lparr>free_store = [Some [1, 2::int], Some [3]],
             objects = [\<lparr>m_size = 2, m_capacity = 2, m_data = Some 0\<rparr>,
                        \<lparr>m_size = 1, m_capacity = 1, m_data = Some 1\<rparr>]\<rparr>"
  let ?w3 = "\<lparr>free_store = [Some [1, 2::int], Some [3]],
             objects = [\<lparr>m_size = 1, m_capacity = 1, m_data = Some 1\<rparr>,
                        \<lparr>m_size = 0, m_capacity = 2, m_data = Some 0\<rparr>]\<rparr>"
  have s1: "step Header int_Type empty_world (New_init [1, 2]) = Inr (?w1, Done)"
    by (simp add: step_def constructed_def SimpleVector_init_result empty_world_def PTRDIFF_MAX_def)
  have s2: "step Header int_Type ?w1 (New_init [3]) = Inr (?w2, Done)"
    by (simp add: step_def constructed_def SimpleVector_init_result PTRDIFF_MAX_def)
  have s3: "step Header int_Type ?w2 (Assign_move 0 1) = Inr (?w3, Done)"
    by (simp add: step_def assign_move_def swap_result Clear_def)
  have s4: "step Header int_Type ?w3 (Call_GetSize 1) = Inr (?w3, Number 0)"
    by (simp add: step_def GetSize_def)
  have s5: "step Header int_Type ?w3 (Call_GetCapacity 1) = Inr (?w3, Number 2)"
    by (simp add: step_def GetCapacity_def)
  show ?thesis using s1 s2 s3 s4 s5 by simp
qed

text \<open>
  C1, amended. Move construction leaves the source with size 0, capacity 0 and no buffer,
  and the new vector is the source as it was: the same buffer, hence the same elements in
  order. Move assignment from a different object leaves the source with size 0 and with the
  capacity and buffer the destination had, a valid empty vector, and the destination is the
  source as it was: the same buffer, hence the same elements in order. Neither touches the
  free store. Move assignment of an object to itself changes nothing.
\<close>

theorem move_transfers_buffer:
  assumes "wf_world w" and "this < length (objects w)" and "rhs < length (objects w)"
  shows "m_size (objects (construct_move w rhs) ! rhs) = 0
       \<and> m_capacity (objects (construct_move w rhs) ! rhs) = 0
       \<and> m_data (objects (construct_move w rhs) ! rhs) = None
       \<and> objects (construct_move w rhs) ! length (objects w) = objects w ! rhs
       \<and> elems (free_store (construct_move w rhs))
             (objects (construct_move w rhs) ! length (objects w))
           = elems (free_store w) (objects w ! rhs)
       \<and> free_store (construct_move w rhs) = free_store w
       \<and> wf_world (construct_move w rhs)
       \<and> (this \<noteq> rhs \<longrightarrow>
             m_size (objects (assign_move w this rhs) ! rhs) = 0
             \<and> m_capacity (objects (assign_move w this rhs) ! rhs) = m_capacity (objects w ! this)
             \<and> m_data (objects (assign_move w this rhs) ! rhs) = m_data (objects w ! this)
             \<and> objects (assign_move w this rhs) ! this = objects w ! rhs
             \<and> elems (free_store (assign_move w this rhs)) (objects (assign_move w this rhs) ! this)
                 = elems (free_store w) (objects w ! rhs)
             \<and> free_store (assign_move w this rhs) = free_store w)
       \<and> wf_world (assign_move w this rhs)
       \<and> assign_move w this this = w"
proof -
  have c: "construct_move w rhs =
      w\<lparr>objects := (objects w)[rhs := \<lparr>m_size = 0, m_capacity = 0, m_data = None\<rparr>] @ [objects w ! rhs]\<rparr>"
    by (simp add: construct_move_def SimpleVector_move_result)
  have a: "this \<noteq> rhs \<Longrightarrow> assign_move w this rhs =
      w\<lparr>objects := (objects w)[this := objects w ! rhs, rhs := Clear (objects w ! this)]\<rparr>"
    by (simp add: assign_move_def swap_result)
  have "wf_world (construct_move w rhs)" using assms(1,3) by (rule construct_move_wf)
  moreover have "wf_world (assign_move w this rhs)" using assms by (rule assign_move_wf)
  moreover have "assign_move w this this = w" by (simp add: assign_move_def)
  ultimately show ?thesis using assms(2,3)
    by (simp add: c a nth_append Clear_def)
qed

theorem move_transfers_buffer_witness:
  "wf_world \<lparr>free_store = [Some [1, 2::int], Some [3]],
             objects = [\<lparr>m_size = 2, m_capacity = 2, m_data = Some 0\<rparr>,
                        \<lparr>m_size = 1, m_capacity = 1, m_data = Some 1\<rparr>]\<rparr>
   \<and> objects (assign_move \<lparr>free_store = [Some [1, 2::int], Some [3]],
             objects = [\<lparr>m_size = 2, m_capacity = 2, m_data = Some 0\<rparr>,
                        \<lparr>m_size = 1, m_capacity = 1, m_data = Some 1\<rparr>]\<rparr> 0 1)
       = [\<lparr>m_size = 1, m_capacity = 1, m_data = Some 1\<rparr>,
          \<lparr>m_size = 0, m_capacity = 2, m_data = Some 0\<rparr>]
   \<and> objects (construct_move \<lparr>free_store = [Some [1, 2::int], Some [3]],
             objects = [\<lparr>m_size = 2, m_capacity = 2, m_data = Some 0\<rparr>,
                        \<lparr>m_size = 1, m_capacity = 1, m_data = Some 1\<rparr>]\<rparr> 1)
       = [\<lparr>m_size = 2, m_capacity = 2, m_data = Some 0\<rparr>,
          \<lparr>m_size = 0, m_capacity = 0, m_data = None\<rparr>,
          \<lparr>m_size = 1, m_capacity = 1, m_data = Some 1\<rparr>]"
proof -
  let ?w = "\<lparr>free_store = [Some [1, 2::int], Some [3]],
             objects = [\<lparr>m_size = 2, m_capacity = 2, m_data = Some 0\<rparr>,
                        \<lparr>m_size = 1, m_capacity = 1, m_data = Some 1\<rparr>]\<rparr>"
  have wf: "wf_world ?w"
    by (simp add: wf_world_def wf_vector_def owns_def separate_def PTRDIFF_MAX_def)
  have b: "0 < length (objects ?w)" "1 < length (objects ?w)" by simp_all
  have am: "objects (assign_move ?w 0 1)
       = [\<lparr>m_size = 1, m_capacity = 1, m_data = Some 1\<rparr>,
          \<lparr>m_size = 0, m_capacity = 2, m_data = Some 0\<rparr>]"
    by (simp add: assign_move_def swap_result Clear_def)
  have cm: "objects (construct_move ?w 1)
       = [\<lparr>m_size = 2, m_capacity = 2, m_data = Some 0\<rparr>,
          \<lparr>m_size = 0, m_capacity = 0, m_data = None\<rparr>,
          \<lparr>m_size = 1, m_capacity = 1, m_data = Some 1\<rparr>]"
    by (simp add: construct_move_def SimpleVector_move_result)
  show ?thesis
    using wf am cm move_transfers_buffer [OF wf b] by simp
qed

section \<open>Copies\<close>

lemma untouched_refl: "i < length (objects w) \<Longrightarrow> untouched w w i"
  by (simp add: untouched_def)

lemma untouched_trans: "untouched w w1 i \<Longrightarrow> untouched w1 w2 i \<Longrightarrow> untouched w w2 i"
  by (auto simp: untouched_def)

lemma untouched_elems:
  assumes "wf_world w" "i < length (objects w)" "untouched w w' i"
  shows "elems (free_store w') (objects w' ! i) = elems (free_store w) (objects w ! i)"
proof -
  have "wf_vector (free_store w) (objects w ! i)" using assms(1,2) by (rule wf_world_nth)
  then have "elems (free_store w') (objects w ! i) = elems (free_store w) (objects w ! i)"
    using assms(3) by (intro elems_frame) (simp_all add: untouched_def)
  then show ?thesis using assms(3) by (simp add: untouched_def)
qed

lemma updated_untouched:
  assumes "wf_world w" "this < length (objects w)"
    "touches_only (free_store w) (m_data (objects w ! this)) h' p'"
    "i < length (objects w)" "i \<noteq> this"
  shows "untouched w \<lparr>free_store = h', objects = (objects w)[this := v']\<rparr> i"
proof -
  have wi: "wf_vector (free_store w) (objects w ! i)" using assms(1,4) by (rule wf_world_nth)
  have sep: "\<And>a. m_data (objects w ! i) = Some a \<Longrightarrow> m_data (objects w ! this) \<noteq> Some a"
    using assms(1) [unfolded wf_world_def separate_nth, THEN conjunct2, rule_format, OF assms(4) assms(2) assms(5)]
    by simp
  have "free_store w' ! a = free_store w ! a" if "m_data (objects w ! i) = Some a"
    and "w' = \<lparr>free_store = h', objects = (objects w)[this := v']\<rparr>" for a w'
  proof -
    have "a < length (free_store w)" using wi that(1) by (rule wf_vector_bound)
    moreover have "Some a \<noteq> m_data (objects w ! this)" using sep [OF that(1)] by simp
    ultimately show ?thesis using assms(3) that(2) by (simp add: touches_only_def)
  qed
  then show ?thesis using assms(3,4,5) by (simp add: untouched_def touches_only_def)
qed

lemma constructed_untouched:
  assumes "wf_world w" "touches_only (free_store w) None h' p'" "i < length (objects w)"
  shows "untouched w \<lparr>free_store = h', objects = objects w @ [v']\<rparr> i"
proof -
  have wi: "wf_vector (free_store w) (objects w ! i)" using assms(1,3) by (rule wf_world_nth)
  have "h' ! a = free_store w ! a" if "m_data (objects w ! i) = Some a" for a
  proof -
    have "a < length (free_store w)" using wi that by (rule wf_vector_bound)
    then show ?thesis using assms(2) by (simp add: touches_only_def)
  qed
  then show ?thesis using assms(2,3) by (simp add: untouched_def touches_only_def nth_append)
qed

lemma constructed_untouched':
  assumes "wf_world w" "constructed w res = Inr (w', r)" "i < length (objects w)"
    "\<And>h' v'. res = Inr (h', v') \<Longrightarrow> wf_vector h' v' \<and> touches_only (free_store w) None h' (m_data v')"
  shows "untouched w w' i"
proof -
  obtain h' v' where res: "res = Inr (h', v')"
    and w': "w' = \<lparr>free_store = h', objects = objects w @ [v']\<rparr>"
    using assms(2) by (auto simp: constructed_def and_then_Inr_iff)
  have "touches_only (free_store w) None h' (m_data v')" using assms(4) [OF res] by simp
  then show ?thesis unfolding w' using assms(1,3)
    by (intro constructed_untouched [where p' = "m_data v'"])
qed

lemma updated_untouched':
  assumes "wf_world w" "this < length (objects w)"
    "wf_vector h' v' \<and> touches_only (free_store w) (m_data (objects w ! this)) h' (m_data v')"
    "updated w this h' v' res = Inr (w', r)" "i < length (objects w)" "i \<noteq> this"
  shows "untouched w w' i"
proof -
  have w': "w' = \<lparr>free_store = h', objects = (objects w)[this := v']\<rparr>"
    using assms(4) by (simp add: updated_def)
  have "touches_only (free_store w) (m_data (objects w ! this)) h' (m_data v')"
    using assms(3) by simp
  then show ?thesis unfolding w' using assms(1,2,5,6)
    by (intro updated_untouched [where p' = "m_data v'"])
qed

lemma stored_untouched:
  assumes "wf_world w" "this < length (objects w)"
    "store (free_store w) (m_data (objects w ! this)) k x = Inr h'"
    "i < length (objects w)" "i \<noteq> this"
  shows "untouched w (w\<lparr>free_store := h'\<rparr>) i"
proof -
  have wt: "wf_vector (free_store w) (objects w ! this)" using assms(1,2) by (rule wf_world_nth)
  have "touches_only (free_store w) (m_data (objects w ! this)) h' (m_data (objects w ! this))"
    using store_sound [OF wt assms(3)] by simp
  then have "untouched w \<lparr>free_store = h', objects = (objects w)[this := objects w ! this]\<rparr> i"
    using assms(1,2,4,5) by (intro updated_untouched [where p' = "m_data (objects w ! this)"])
  then have main: "untouched w \<lparr>free_store = h', objects = objects w\<rparr> i" by simp
  have eq: "w\<lparr>free_store := h'\<rparr> = \<lparr>free_store = h', objects = objects w\<rparr>"
    by (cases w) simp
  show ?thesis unfolding eq by (rule main)
qed

lemma objects_untouched:
  assumes "i < length (objects w)" "length vs' \<ge> length (objects w)" "vs' ! i = objects w ! i"
  shows "untouched w (w\<lparr>objects := vs'\<rparr>) i"
  using assms by (simp add: untouched_def)

lemma member_call_untouched_Header:
  assumes "wf_world w" "list_all (\<lambda>i. i < length (objects w)) (refs c)"
    "member_call Header T w c = Inr (w', r)" "i < length (objects w)" "i \<notin> set (refs c)"
  shows "untouched w w' i"
proof (cases c)
  case New_default
  then show ?thesis using assms
    by (auto intro!: constructed_untouched' [OF assms(1), of _ w' r]
        simp: SimpleVector_default_def wf_vector_null touches_only_def)
next
  case (New_reserve n)
  then show ?thesis using assms
    by (auto intro!: constructed_untouched' [OF assms(1), of _ w' r] dest: SimpleVector_reserve_sound)
next
  case (New_size n)
  then show ?thesis using assms
    by (auto intro!: constructed_untouched' [OF assms(1), of _ w' r] dest: SimpleVector_fill_sound
        simp: SimpleVector_size_fill)
next
  case (New_fill n x)
  then show ?thesis using assms
    by (auto intro!: constructed_untouched' [OF assms(1), of _ w' r] dest: SimpleVector_fill_sound)
next
  case (New_init xs)
  then show ?thesis using assms
    by (auto intro!: constructed_untouched' [OF assms(1), of _ w' r] dest: SimpleVector_init_sound)
next
  case (New_copy other)
  then have o: "other < length (objects w)" using assms(2) by simp
  have wo: "wf_vector (free_store w) (objects w ! other)" using assms(1) o by (rule wf_world_nth)
  show ?thesis using New_copy assms(3,4) SimpleVector_copy_sound [OF wo]
    by (auto intro!: constructed_untouched' [OF assms(1), of _ w' r] simp: copy_construct_def)
next
  case (New_move other)
  then have "w' = w\<lparr>objects := (objects w)[other := \<lparr>m_size = 0, m_capacity = 0, m_data = None\<rparr>]
      @ [objects w ! other]\<rparr>"
    using assms(3) by (simp add: construct_move_def SimpleVector_move_result)
  moreover have "i \<noteq> other" using New_move assms(5) by simp
  ultimately show ?thesis using assms(4) by (simp add: untouched_def nth_append)
next
  case (Assign_copy this rhs)
  then have b: "this < length (objects w)" "rhs < length (objects w)" using assms(2) by simp_all
  have ne: "i \<noteq> this" using Assign_copy assms(5) by simp
  show ?thesis
  proof (cases "this = rhs")
    case True
    then show ?thesis using Assign_copy assms by (auto simp: assign_copy_def untouched_refl)
  next
    case False
    obtain h1 temp where
      "assign_copy Header T w this rhs =
         Inr \<lparr>free_store = released h1 (m_data (objects w ! this)), objects = (objects w)[this := temp]\<rparr>"
      "touches_only (free_store w) (m_data (objects w ! this)) (released h1 (m_data (objects w ! this))) (m_data temp)"
      using assign_copy_Header [OF assms(1) b False, of T] by blast
    then show ?thesis using Assign_copy assms(1,3,4) b ne
      by (auto intro: updated_untouched)
  qed
next
  case (Assign_move this rhs)
  then have ne: "i \<noteq> this" "i \<noteq> rhs" using assms(5) by simp_all
  have "w' = assign_move w this rhs" using Assign_move assms(3) by simp
  then show ?thesis using ne assms(4)
    by (auto simp: assign_move_def swap_result untouched_def)
next
  case (Call_Reserve this n)
  then have b: "this < length (objects w)" and ne: "i \<noteq> this" using assms(2,5) by simp_all
  have wt: "wf_vector (free_store w) (objects w ! this)" using assms(1) b by (rule wf_world_nth)
  obtain h' v' where "Reserve T (free_store w) (objects w ! this) n = Inr (h', v')"
    "updated w this h' v' Done = Inr (w', r)"
    using Call_Reserve assms(3) by (auto simp: and_then_Inr_iff)
  then show ?thesis using Reserve_sound [OF wt] updated_untouched' [OF assms(1) b _ _ assms(4) ne]
    by blast
next
  case (Call_GetSize this)
  then show ?thesis using assms by (auto simp: untouched_refl)
next
  case (Call_GetCapacity this)
  then show ?thesis using assms by (auto simp: untouched_refl)
next
  case (Call_IsEmpty this)
  then show ?thesis using assms by (auto simp: untouched_refl)
next
  case (Call_index this k)
  then show ?thesis using assms by (auto simp: and_then_Inr_iff untouched_refl)
next
  case (Call_index_assign this k x)
  then show ?thesis using assms
    by (auto simp: and_then_Inr_iff index_assign_def intro: stored_untouched)
next
  case (Call_At this k)
  then show ?thesis using assms by (auto simp: and_then_Inr_iff untouched_refl)
next
  case (Call_At_assign this k x)
  then show ?thesis using assms
    by (auto simp: and_then_Inr_iff At_assign_def intro: stored_untouched split: if_splits)
next
  case (Call_Clear this)
  then have b: "this < length (objects w)" and ne: "i \<noteq> this" using assms(2,5) by simp_all
  have wt: "wf_vector (free_store w) (objects w ! this)" using assms(1) b by (rule wf_world_nth)
  show ?thesis using Call_Clear assms(3)
      updated_untouched' [OF assms(1) b Clear_sound [OF wt] _ assms(4) ne] by simp
next
  case (Call_Resize this n)
  then have b: "this < length (objects w)" and ne: "i \<noteq> this" using assms(2,5) by simp_all
  have wt: "wf_vector (free_store w) (objects w ! this)" using assms(1) b by (rule wf_world_nth)
  obtain h' v' where "Resize T (free_store w) (objects w ! this) n = Inr (h', v')"
    "updated w this h' v' Done = Inr (w', r)"
    using Call_Resize assms(3) by (auto simp: and_then_Inr_iff)
  then show ?thesis using Resize_sound [OF wt] updated_untouched' [OF assms(1) b _ _ assms(4) ne]
    by blast
next
  case (Call_PushBack this x)
  then have b: "this < length (objects w)" and ne: "i \<noteq> this" using assms(2,5) by simp_all
  have wt: "wf_vector (free_store w) (objects w ! this)" using assms(1) b by (rule wf_world_nth)
  obtain h' v' where "PushBack T (free_store w) (objects w ! this) x = Inr (h', v')"
    "updated w this h' v' Done = Inr (w', r)"
    using Call_PushBack assms(3) by (auto simp: and_then_Inr_iff)
  then show ?thesis using PushBack_sound [OF wt] updated_untouched' [OF assms(1) b _ _ assms(4) ne]
    by blast
next
  case (Call_PushBack_move this x)
  then have b: "this < length (objects w)" and ne: "i \<noteq> this" using assms(2,5) by simp_all
  have wt: "wf_vector (free_store w) (objects w ! this)" using assms(1) b by (rule wf_world_nth)
  obtain h' v' y where "PushBack_move T (free_store w) (objects w ! this) x = Inr (h', v', y)"
    "updated w this h' v' (Left_over y) = Inr (w', r)"
    using Call_PushBack_move assms(3) by (auto simp: and_then_Inr_iff)
  then show ?thesis
    using PushBack_move_sound [OF wt] updated_untouched' [OF assms(1) b _ _ assms(4) ne]
    by blast
next
  case (Call_Insert this pos x)
  then have b: "this < length (objects w)" and ne: "i \<noteq> this" using assms(2,5) by simp_all
  have wt: "wf_vector (free_store w) (objects w ! this)" using assms(1) b by (rule wf_world_nth)
  obtain h' v' it where "InsertImpl T (free_store w) (objects w ! this) pos x = Inr (h', v', it)"
    "updated w this h' v' (Position it) = Inr (w', r)"
    using Call_Insert assms(3) by (auto simp: and_then_Inr_iff Insert_def)
  then show ?thesis
    using InsertImpl_sound [OF wt] updated_untouched' [OF assms(1) b _ _ assms(4) ne]
    by blast
next
  case (Call_Insert_move this pos x)
  then have b: "this < length (objects w)" and ne: "i \<noteq> this" using assms(2,5) by simp_all
  have wt: "wf_vector (free_store w) (objects w ! this)" using assms(1) b by (rule wf_world_nth)
  obtain h' v' it y where "InsertImpl T (free_store w) (objects w ! this) pos x = Inr (h', v', it)"
    "updated w this h' v' (Position_left_over it y) = Inr (w', r)"
    using Call_Insert_move assms(3) by (auto simp: and_then_Inr_iff Insert_move_def)
  then show ?thesis
    using InsertImpl_sound [OF wt] updated_untouched' [OF assms(1) b _ _ assms(4) ne]
    by blast
next
  case (Call_PopBack this)
  then have b: "this < length (objects w)" and ne: "i \<noteq> this" using assms(2,5) by simp_all
  have wt: "wf_vector (free_store w) (objects w ! this)" using assms(1) b by (rule wf_world_nth)
  obtain v' where "PopBack (objects w ! this) = Inr v'"
    "updated w this (free_store w) v' Done = Inr (w', r)"
    using Call_PopBack assms(3) by (auto simp: and_then_Inr_iff)
  then show ?thesis using PopBack_sound [OF wt] updated_untouched' [OF assms(1) b _ _ assms(4) ne]
    by blast
next
  case (Call_Erase this pos)
  then have b: "this < length (objects w)" and ne: "i \<noteq> this" using assms(2,5) by simp_all
  have wt: "wf_vector (free_store w) (objects w ! this)" using assms(1) b by (rule wf_world_nth)
  obtain h' v' it where "Erase T (free_store w) (objects w ! this) pos = Inr (h', v', it)"
    "updated w this h' v' (Position it) = Inr (w', r)"
    using Call_Erase assms(3) by (auto simp: and_then_Inr_iff)
  then show ?thesis using Erase_sound [OF wt] updated_untouched' [OF assms(1) b _ _ assms(4) ne]
    by blast
next
  case (Call_swap this other)
  then have ne: "i \<noteq> this" "i \<noteq> other" using assms(5) by simp_all
  have "w' = swap_objects w this other" using Call_swap assms(3) by simp
  then show ?thesis using ne assms(4)
    by (auto simp: swap_objects_def swap_result untouched_def)
next
  case (Call_begin this)
  then show ?thesis using assms by (auto simp: untouched_refl)
next
  case (Call_end this)
  then show ?thesis using assms by (auto simp: untouched_refl)
qed

lemma step_untouched_Header:
  assumes "wf_world w" "step Header T w c = Inr (w', r)" "i < length (objects w)"
    "i \<notin> set (refs c)"
  shows "untouched w w' i"
proof -
  have "list_all (\<lambda>i. i < length (objects w)) (refs c)" "member_call Header T w c = Inr (w', r)"
    using assms(2) by (auto simp: step_def split: if_splits)
  then show ?thesis using assms(1,3,4) by (intro member_call_untouched_Header)
qed

lemma run_untouched_Header:
  assumes "wf_world w" "i < length (objects w)" "\<forall>c \<in> set cs. i \<notin> set (refs c)"
  shows "untouched w (fst (run Header T w cs)) i"
  using assms
proof (induction cs arbitrary: w)
  case Nil
  then show ?case by (simp add: untouched_refl)
next
  case (Cons c cs)
  show ?case
  proof (cases "step Header T w c")
    case (Inl e)
    have "untouched w (fst (run Header T w cs)) i" using Cons by simp
    then show ?thesis using Inl Cons.prems by (simp add: split_beta untouched_refl)
  next
    case (Inr p)
    obtain w' r where p: "p = (w', r)" by (cases p) auto
    have st: "step Header T w c = Inr (w', r)" using Inr p by simp
    have wf': "wf_world w'" using Cons.prems(1) st by (rule step_wf_Header)
    have "i \<notin> set (refs c)" using Cons.prems(3) by simp
    then have u: "untouched w w' i"
      using step_untouched_Header [OF Cons.prems(1) st Cons.prems(2)] by simp
    then have "i < length (objects w')" by (simp add: untouched_def)
    then have "untouched w' (fst (run Header T w' cs)) i" using wf' Cons.prems(3)
      by (intro Cons.IH) simp_all
    then have "untouched w (fst (run Header T w' cs)) i" using u untouched_trans by blast
    then show ?thesis using st by (simp add: split_beta)
  qed
qed

lemma New_copy_Header:
  assumes "wf_world w" "src < length (objects w)"
  shows "\<exists>h1 v1. step Header T w (New_copy src) =
             Inr (\<lparr>free_store = h1, objects = objects w @ [v1]\<rparr>, Done)
          \<and> wf_world \<lparr>free_store = h1, objects = objects w @ [v1]\<rparr>
          \<and> untouched w \<lparr>free_store = h1, objects = objects w @ [v1]\<rparr> src
          \<and> elems h1 v1 = elems (free_store w) (objects w ! src)
          \<and> m_size v1 = m_size (objects w ! src) \<and> m_capacity v1 = m_size v1
          \<and> (m_data v1 = None \<or> m_data v1 \<noteq> m_data (objects w ! src))"
proof -
  let ?h = "free_store w" and ?o = "objects w ! src"
  have wo: "wf_vector ?h ?o" using assms by (rule wf_world_nth)
  have res: "SimpleVector_copy T ?h ?o =
     (if m_size ?o = 0 then Inr (?h, \<lparr>m_size = 0, m_capacity = 0, m_data = None\<rparr>)
      else Inr (?h @ [Some (elems ?h ?o)],
                \<lparr>m_size = m_size ?o, m_capacity = m_size ?o, m_data = Some (length ?h)\<rparr>))"
    using wo by (rule SimpleVector_copy_result)
  obtain h1 v1 where cp: "SimpleVector_copy T ?h ?o = Inr (h1, v1)"
    using res by (cases "m_size ?o = 0") auto
  let ?w1 = "\<lparr>free_store = h1, objects = objects w @ [v1]\<rparr>"
  have st: "step Header T w (New_copy src) = Inr (?w1, Done)"
    using assms(2) cp by (simp add: step_def constructed_def copy_construct_def)
  have snd: "wf_vector h1 v1 \<and> touches_only ?h None h1 (m_data v1)"
    using wo cp by (rule SimpleVector_copy_sound)
  have wf1: "wf_world ?w1" using assms(1) snd by (intro wf_world_append) simp_all
  have un: "untouched w ?w1 src"
    using assms snd by (intro constructed_untouched [where p' = "m_data v1"]) simp_all
  have len: "length (elems ?h ?o) = m_size ?o" using wo by (rule elems_length)
  have bound: "\<And>a. m_data ?o = Some a \<Longrightarrow> a < length ?h"
    using wo wf_vector_bound by blast
  have props: "elems h1 v1 = elems ?h ?o \<and> m_size v1 = m_size ?o \<and> m_capacity v1 = m_size v1
      \<and> (m_data v1 = None \<or> m_data v1 \<noteq> m_data ?o)"
  proof (cases "m_size ?o = 0")
    case True
    then show ?thesis using cp res by (auto simp: elems_def)
  next
    case False
    then have "h1 = ?h @ [Some (elems ?h ?o)]"
      "v1 = \<lparr>m_size = m_size ?o, m_capacity = m_size ?o, m_data = Some (length ?h)\<rparr>"
      using cp res by auto
    then show ?thesis using len bound [of "length ?h"]
      by (auto simp: elems_def [of "?h @ [Some (elems ?h ?o)]"] block_def)
  qed
  show ?thesis using st wf1 un props by blast
qed

text \<open>
  C8. Copy construction gives a deep, independent copy: the copy has the elements and the
  size of the source, its capacity equals its size, it has a buffer of its own, and the
  source is left as it was; whatever is called afterwards on the copy, or on any object
  other than the source, the source keeps its size, its capacity, its buffer and its
  elements. In the model the copy constructor cannot fail.
\<close>

theorem copy_is_deep:
  assumes "wf_world w" and "src < length (objects w)"
  shows "case step var T w (New_copy src) of
           Inr (w1, r) \<Rightarrow>
             length (objects w1) = length (objects w) + 1
             \<and> objects w1 ! src = objects w ! src
             \<and> elems (free_store w1) (objects w1 ! src) = elems (free_store w) (objects w ! src)
             \<and> elems (free_store w1) (objects w1 ! length (objects w))
                 = elems (free_store w) (objects w ! src)
             \<and> m_size (objects w1 ! length (objects w)) = m_size (objects w ! src)
             \<and> m_capacity (objects w1 ! length (objects w))
                 = m_size (objects w1 ! length (objects w))
             \<and> (m_data (objects w1 ! length (objects w)) = None
                  \<or> m_data (objects w1 ! length (objects w)) \<noteq> m_data (objects w ! src))
             \<and> ((\<forall>c \<in> set cs. src \<notin> set (refs c)) \<longrightarrow>
                  objects (fst (run var T w1 cs)) ! src = objects w ! src
                  \<and> elems (free_store (fst (run var T w1 cs))) (objects (fst (run var T w1 cs)) ! src)
                      = elems (free_store w) (objects w ! src))
         | Inl e \<Rightarrow> False"
proof -
  obtain h1 v1 where
    st: "step Header T w (New_copy src) = Inr (\<lparr>free_store = h1, objects = objects w @ [v1]\<rparr>, Done)"
    and wf1: "wf_world \<lparr>free_store = h1, objects = objects w @ [v1]\<rparr>"
    and un: "untouched w \<lparr>free_store = h1, objects = objects w @ [v1]\<rparr> src"
    and props: "elems h1 v1 = elems (free_store w) (objects w ! src)"
      "m_size v1 = m_size (objects w ! src)" "m_capacity v1 = m_size v1"
      "m_data v1 = None \<or> m_data v1 \<noteq> m_data (objects w ! src)"
    using New_copy_Header [OF assms, of T] by blast
  let ?w1 = "\<lparr>free_store = h1, objects = objects w @ [v1]\<rparr>"
  have stv: "step var T w (New_copy src) = Inr (?w1, Done)"
    using st step_eq [OF assms(1), of T "New_copy src"] by (cases var) simp_all
  have runv: "run var T ?w1 cs = run Header T ?w1 cs"
    using run_eq [OF wf1, of T cs] by (cases var) simp_all
  have el1: "elems (free_store ?w1) (objects ?w1 ! src) = elems (free_store w) (objects w ! src)"
    using assms un by (rule untouched_elems)
  have later: "objects (fst (run var T ?w1 cs)) ! src = objects w ! src
      \<and> elems (free_store (fst (run var T ?w1 cs))) (objects w ! src)
          = elems (free_store w) (objects w ! src)"
    if cs: "\<forall>c \<in> set cs. src \<notin> set (refs c)"
  proof -
    have s1: "src < length (objects ?w1)" using assms(2) by simp
    have u2: "untouched ?w1 (fst (run Header T ?w1 cs)) src"
      using wf1 s1 cs by (rule run_untouched_Header)
    have "elems (free_store (fst (run Header T ?w1 cs))) (objects (fst (run Header T ?w1 cs)) ! src)
        = elems (free_store ?w1) (objects ?w1 ! src)"
      using wf1 s1 u2 by (rule untouched_elems)
    moreover have "objects (fst (run Header T ?w1 cs)) ! src = objects ?w1 ! src"
      using u2 by (simp add: untouched_def)
    ultimately show ?thesis using el1 un runv by (simp add: untouched_def)
  qed
  then have indep: "(\<forall>c \<in> set cs. src \<notin> set (refs c)) \<longrightarrow>
      objects (fst (run var T ?w1 cs)) ! src = objects w ! src
      \<and> elems (free_store (fst (run var T ?w1 cs))) (objects w ! src)
          = elems (free_store w) (objects w ! src)"
    by blast
  show ?thesis
    using stv props el1 indep assms(2)
    by (simp add: nth_append)
qed

theorem copy_is_deep_witness:
  "wf_world example_world \<and> 0 < length (objects example_world)
   \<and> step Header int_Type example_world (New_copy 0)
       = Inr (\<lparr>free_store = [Some [10, 20, 30, 0], Some [10, 20, 30]],
               objects = [\<lparr>m_size = 3, m_capacity = 4, m_data = Some 0\<rparr>,
                          \<lparr>m_size = 3, m_capacity = 3, m_data = Some 1\<rparr>]\<rparr>, Done)
   \<and> refs (Call_PushBack 1 (40::int)) = [1] \<and> refs (Call_index_assign 1 0 (99::int)) = [1]
   \<and> run Header int_Type
        \<lparr>free_store = [Some [10, 20, 30, 0], Some [10, 20, 30]],
          objects = [\<lparr>m_size = 3, m_capacity = 4, m_data = Some 0\<rparr>,
                     \<lparr>m_size = 3, m_capacity = 3, m_data = Some 1\<rparr>]\<rparr>
        [Call_PushBack 1 40, Call_index_assign 1 0 99]
       = (\<lparr>free_store = [Some [10, 20, 30, 0], None, Some [99, 20, 30, 40, 0, 0]],
           objects = [\<lparr>m_size = 3, m_capacity = 4, m_data = Some 0\<rparr>,
                      \<lparr>m_size = 4, m_capacity = 6, m_data = Some 2\<rparr>]\<rparr>,
          [Inr Done, Inr Done])
   \<and> [\<lparr>m_size = 3, m_capacity = 4, m_data = Some 0\<rparr>,
        \<lparr>m_size = 4, m_capacity = 6, m_data = Some 2\<rparr>] ! 0 = objects example_world ! 0
   \<and> elems [Some [10, 20, 30, 0], None, Some [99, 20, 30, 40, 0, 0::int]]
         \<lparr>m_size = 3, m_capacity = 4, m_data = Some 0\<rparr> = [10, 20, 30]"
proof -
  let ?v0 = "\<lparr>m_size = 3, m_capacity = 4, m_data = Some 0\<rparr>"
  let ?w1 = "\<lparr>free_store = [Some [10, 20, 30, 0::int], Some [10, 20, 30]],
          objects = [?v0, \<lparr>m_size = 3, m_capacity = 3, m_data = Some 1\<rparr>]\<rparr>"
  let ?w2 = "\<lparr>free_store = [Some [10, 20, 30, 0::int], None, Some [10, 20, 30, 40, 0, 0]],
           objects = [?v0, \<lparr>m_size = 4, m_capacity = 6, m_data = Some 2\<rparr>]\<rparr>"
  let ?w3 = "\<lparr>free_store = [Some [10, 20, 30, 0::int], None, Some [99, 20, 30, 40, 0, 0]],
           objects = [?v0, \<lparr>m_size = 4, m_capacity = 6, m_data = Some 2\<rparr>]\<rparr>"
  have wf: "wf_world example_world"
    by (simp add: wf_world_def wf_vector_def owns_def separate_def example_world_def PTRDIFF_MAX_def)
  have b: "0 < length (objects example_world)"
    by (simp add: example_world_def)
  have wv: "wf_vector [Some [10, 20, 30, 0::int]] ?v0"
    by (simp add: wf_vector_def owns_def PTRDIFF_MAX_def)
  have s1: "step Header int_Type example_world (New_copy 0) = Inr (?w1, Done)"
    using SimpleVector_copy_result [OF wv, of int_Type]
    by (simp add: step_def constructed_def copy_construct_def example_world_def elems_def block_def)
  have rep: "replicate 2 (0::int) = [0, 0]" by (simp add: numeral_2_eq_2)
  have s2: "step Header int_Type ?w1 (Call_PushBack 1 40) = Inr (?w2, Done)"
    using PushBack_full [of "\<lparr>m_size = 3, m_capacity = 3, m_data = Some 1\<rparr>" 1
        "[Some [10, 20, 30, 0::int], Some [10, 20, 30]]" "[10, 20, 30]" int_Type 40] rep
    by (simp add: step_def updated_def PTRDIFF_MAX_def int_Type_def)
  have s3: "step Header int_Type ?w2 (Call_index_assign 1 0 99) = Inr (?w3, Done)"
    by (simp add: step_def index_assign_def store_def)
  have r: "run Header int_Type ?w1 [Call_PushBack 1 40, Call_index_assign 1 0 99]
       = (?w3, [Inr Done, Inr Done])"
    using s2 s3 by simp
  have cs: "\<forall>c \<in> set [Call_PushBack 1 40, Call_index_assign 1 0 (99::int)]. 0 \<notin> set (refs c)"
    by simp
  have el: "elems [Some [10, 20, 30, 0], None, Some [99, 20, 30, 40, 0, 0::int]] ?v0 = [10, 20, 30]"
    by (simp add: elems_def block_def)
  note deep = copy_is_deep [OF wf b, where var = Header and T = int_Type
        and cs = "[Call_PushBack 1 40, Call_index_assign 1 0 99]", unfolded s1 r]
  have src: "[?v0, \<lparr>m_size = 4, m_capacity = 6, m_data = Some 2\<rparr>] ! 0 = objects example_world ! 0"
    using deep cs by simp
  have rf: "refs (Call_PushBack 1 (40::int)) = [1]" "refs (Call_index_assign 1 0 (99::int)) = [1]"
    by simp_all
  show ?thesis
    using wf b s1 r rf el src by (intro conjI)
qed

end
